theory Spec2Isabelle
  imports Main "HOL-Library.Word"
begin

section \<open>Values of the program\<close>

text \<open>
  The program is \<^verbatim>\<open>app.py\<close>. Its \<^verbatim>\<open>bytes\<close> values are lists of 8-bit words, its
  \<^verbatim>\<open>str\<close> values are lists of Unicode code points (Python's \<^verbatim>\<open>len\<close>, indexing,
  \<^verbatim>\<open>split\<close> and \<^verbatim>\<open>isdigit\<close> all count code points), and its integers are unbounded.
  An exception that the code catches with \<^verbatim>\<open>except Exception\<close> is a value of
  \<open>py_exc\<close>; a function body that may raise returns \<open>py_exc + 'a\<close>.
\<close>

type_synonym byte = "8 word"
type_synonym bytes = "byte list"
type_synonym str = "nat list"

datatype py_exc = OSError | IndexError | ValueError | StructError

abbreviation lit :: "string \<Rightarrow> str" where
  "lit s \<equiv> map of_char s"

subsection \<open>\<^verbatim>\<open>bytes.decode("utf-8", errors=...)\<close>\<close>

text \<open>
  Python's UTF-8 decoder, as a machine that reads one byte at a time. A state other than
  \<open>Start\<close> is a sequence that has begun and is still well-formed: \<open>Tail1 acc\<close> waits for
  the last continuation byte, \<open>Tail2\<close> and \<open>Tail3\<close> for two and three of them, and the
  states named after a lead byte restrict the next byte as the standard does (no overlong
  forms, no surrogates, nothing above U+10FFFF). A byte that cannot continue the sequence
  ends it as one error (the maximal invalid prefix) and is then read again as a lead byte.
  The error handler \<^verbatim>\<open>replace\<close> writes U+FFFD for an error, \<^verbatim>\<open>ignore\<close> writes nothing.
\<close>

datatype errors_mode = Replace | Ignore

datatype ustate = Start | Tail1 nat | Tail2 nat | Tail2_E0 | Tail2_ED
  | Tail3 nat | Tail3_F0 | Tail3_F4

definition on_error :: "errors_mode \<Rightarrow> str" where
  "on_error m = (case m of Replace \<Rightarrow> [0xFFFD] | Ignore \<Rightarrow> [])"

definition is_cont :: "byte \<Rightarrow> bool" where
  "is_cont b = (0x80 \<le> b \<and> b \<le> 0xBF)"

definition cont_bits :: "byte \<Rightarrow> nat" where
  "cont_bits b = unat b - 0x80"

definition lead :: "errors_mode \<Rightarrow> byte \<Rightarrow> str \<times> ustate" where
  "lead m b =
     (if b < 0x80 then ([unat b], Start)
      else if 0xC2 \<le> b \<and> b \<le> 0xDF then ([], Tail1 (unat b - 0xC0))
      else if b = 0xE0 then ([], Tail2_E0)
      else if b = 0xED then ([], Tail2_ED)
      else if 0xE1 \<le> b \<and> b \<le> 0xEF then ([], Tail2 (unat b - 0xE0))
      else if b = 0xF0 then ([], Tail3_F0)
      else if 0xF1 \<le> b \<and> b \<le> 0xF3 then ([], Tail3 (unat b - 0xF0))
      else if b = 0xF4 then ([], Tail3_F4)
      else (on_error m, Start))"

definition retry :: "errors_mode \<Rightarrow> byte \<Rightarrow> str \<times> ustate" where
  "retry m b = (on_error m @ fst (lead m b), snd (lead m b))"

fun step :: "errors_mode \<Rightarrow> ustate \<Rightarrow> byte \<Rightarrow> str \<times> ustate" where
  "step m Start b = lead m b"
| "step m (Tail1 acc) b =
     (if is_cont b then ([acc * 64 + cont_bits b], Start) else retry m b)"
| "step m (Tail2 acc) b =
     (if is_cont b then ([], Tail1 (acc * 64 + cont_bits b)) else retry m b)"
| "step m Tail2_E0 b =
     (if 0xA0 \<le> b \<and> b \<le> 0xBF then ([], Tail1 (cont_bits b)) else retry m b)"
| "step m Tail2_ED b =
     (if 0x80 \<le> b \<and> b \<le> 0x9F then ([], Tail1 (0xD * 64 + cont_bits b)) else retry m b)"
| "step m (Tail3 acc) b =
     (if is_cont b then ([], Tail2 (acc * 64 + cont_bits b)) else retry m b)"
| "step m Tail3_F0 b =
     (if 0x90 \<le> b \<and> b \<le> 0xBF then ([], Tail2 (cont_bits b)) else retry m b)"
| "step m Tail3_F4 b =
     (if 0x80 \<le> b \<and> b \<le> 0x8F then ([], Tail2 (4 * 64 + cont_bits b)) else retry m b)"

fun utf8_run :: "errors_mode \<Rightarrow> ustate \<Rightarrow> bytes \<Rightarrow> str" where
  "utf8_run m st [] = (if st = Start then [] else on_error m)"
| "utf8_run m st (b # bs) = fst (step m st b) @ utf8_run m (snd (step m st b)) bs"

definition decode_utf8 :: "errors_mode \<Rightarrow> bytes \<Rightarrow> str" where
  "decode_utf8 m bs = utf8_run m Start bs"

subsection \<open>\<^verbatim>\<open>str.splitlines()\<close>\<close>

text \<open>
  The line boundaries of \<^verbatim>\<open>str.splitlines\<close>: LF, VT, FF, CR, FS, GS, RS, NEL, LS and PS,
  with CR LF taken as one boundary. The boundary is not part of the line, and there is no
  empty last line after a final boundary.
\<close>

definition line_boundary :: "nat \<Rightarrow> bool" where
  "line_boundary c = (c = 0x0A \<or> c = 0x0B \<or> c = 0x0C \<or> c = 0x0D \<or> c = 0x1C \<or> c = 0x1D
     \<or> c = 0x1E \<or> c = 0x85 \<or> c = 0x2028 \<or> c = 0x2029)"

fun splitlines_from :: "str \<Rightarrow> str \<Rightarrow> str list" where
  "splitlines_from cur [] = (if cur = [] then [] else [cur])"
| "splitlines_from cur [c] = (if line_boundary c then [cur] else [cur @ [c]])"
| "splitlines_from cur (c # d # cs) =
     (if c = 0x0D \<and> d = 0x0A then cur # splitlines_from [] cs
      else if line_boundary c then cur # splitlines_from [] (d # cs)
      else splitlines_from (cur @ [c]) (d # cs))"

definition splitlines :: "str \<Rightarrow> str list" where
  "splitlines s = splitlines_from [] s"

subsection \<open>Slices\<close>

text \<open>
  \<^verbatim>\<open>xs[-n:]\<close>: for \<open>n > 0\<close> the start is \<open>len(xs) - n\<close>, clipped at 0; for \<open>n = 0\<close> the
  start is 0 (the whole list); for \<open>n < 0\<close> the start is \<open>-n\<close>, clipped at the length.
\<close>

definition slice_last :: "'a list \<Rightarrow> int \<Rightarrow> 'a list" where
  "slice_last xs n = (if 0 < n then drop (length xs - nat n) xs else drop (nat (- n)) xs)"

section \<open>The tail reader: \<^verbatim>\<open>tail_file\<close>\<close>

text \<open>
  A file opened with \<^verbatim>\<open>open(path, "rb")\<close> is a handle with the two operations the code
  uses: \<open>seek_end_tell\<close> is \<^verbatim>\<open>f.seek(0, os.SEEK_END); f.tell()\<close>, the size, and
  \<open>seek_read pos k\<close> is \<^verbatim>\<open>f.seek(pos); f.read(k)\<close>. Each is \<open>None\<close> when it raises.
  The file system maps a path to its handle, \<open>None\<close> when \<^verbatim>\<open>open\<close> raises.
\<close>

record handle =
  seek_end_tell :: "nat option"
  seek_read :: "nat \<Rightarrow> nat \<Rightarrow> bytes option"

type_synonym filesystem = "str \<Rightarrow> handle option"

text \<open>A file with contents \<open>c\<close> on which no operation fails.\<close>

definition readable :: "bytes \<Rightarrow> handle" where
  "readable c = \<lparr>seek_end_tell = Some (length c),
                 seek_read = (\<lambda>pos k. Some (take k (drop pos c)))\<rparr>"

text \<open>
  The loop of lines 50 to 54, on its state \<open>(size, data)\<close>. The block size is a local
  constant of the source (1024); it is a parameter here so that the result can be compared
  across block sizes. With a block size of 0 the loop of the source would not end, hence
  the result in \<open>option\<close>: \<open>None\<close> is a loop that runs forever, \<open>Some (Inl e)\<close> one that
  a failed read has left through the exception \<open>e\<close>.
\<close>

partial_function (option) tail_scan ::
  "nat \<Rightarrow> handle \<Rightarrow> int \<Rightarrow> nat \<Rightarrow> bytes \<Rightarrow> (py_exc + nat \<times> bytes) option" where
  "tail_scan block f n sz data =
     (if 0 < sz \<and> int (count_list data 0x0A) \<le> n then
        (case seek_read f (sz - min block sz) (min block sz) of
           None \<Rightarrow> Some (Inl OSError)
         | Some chunk \<Rightarrow> tail_scan block f n (sz - min block sz) (chunk @ data))
      else Some (Inr (sz, data)))"

text \<open>The body of the \<^verbatim>\<open>try\<close> block, with the block size as a parameter.\<close>

definition tail_body :: "nat \<Rightarrow> filesystem \<Rightarrow> str \<Rightarrow> int \<Rightarrow> (py_exc + str list) option" where
  "tail_body block fs path n =
     (case fs path of
        None \<Rightarrow> Some (Inl OSError)
      | Some f \<Rightarrow>
          (case seek_end_tell f of
             None \<Rightarrow> Some (Inl OSError)
           | Some sz \<Rightarrow>
               (case tail_scan block f n sz [] of
                  None \<Rightarrow> None
                | Some (Inl e) \<Rightarrow> Some (Inl e)
                | Some (Inr (sz', data)) \<Rightarrow>
                    Some (Inr (slice_last (splitlines (decode_utf8 Replace data)) n)))))"

text \<open>\<^verbatim>\<open>except Exception: return []\<close>\<close>

definition tail_file_blk :: "nat \<Rightarrow> filesystem \<Rightarrow> str \<Rightarrow> int \<Rightarrow> str list option" where
  "tail_file_blk block fs path n =
     (case tail_body block fs path n of
        None \<Rightarrow> None
      | Some (Inl e) \<Rightarrow> Some []
      | Some (Inr ls) \<Rightarrow> Some ls)"

definition tail_file :: "filesystem \<Rightarrow> str \<Rightarrow> int \<Rightarrow> str list option" where
  "tail_file fs path n = tail_file_blk 1024 fs path n"

text \<open>Reading the whole file at once: the lines of a file.\<close>

definition file_lines :: "bytes \<Rightarrow> str list" where
  "file_lines c = splitlines (decode_utf8 Replace c)"

section \<open>More of Python's library\<close>

subsection \<open>Exceptions in sequence\<close>

fun bnd :: "py_exc + 'a \<Rightarrow> ('a \<Rightarrow> py_exc + 'b) \<Rightarrow> py_exc + 'b" where
  "bnd (Inl e) f = Inl e"
| "bnd (Inr x) f = f x"

text \<open>\<^verbatim>\<open>xs[i]\<close> for an index \<open>i \<ge> 0\<close>: IndexError out of range.\<close>

definition item :: "'a list \<Rightarrow> nat \<Rightarrow> py_exc + 'a" where
  "item xs i = (if i < length xs then Inr (xs ! i) else Inl IndexError)"

subsection \<open>\<^verbatim>\<open>str.split(sep)\<close> and \<^verbatim>\<open>str.strip\<close>\<close>

text \<open>
  \<^verbatim>\<open>s.split(sep)\<close> for a separator of one character: every occurrence separates, so
  the result has one more element than there are separators, and the empty string gives
  one empty field.
\<close>

fun split_from :: "nat \<Rightarrow> str \<Rightarrow> str \<Rightarrow> str list" where
  "split_from sep cur [] = [cur]"
| "split_from sep cur (c # cs) =
     (if c = sep then cur # split_from sep [] cs else split_from sep (cur @ [c]) cs)"

definition split_on :: "nat \<Rightarrow> str \<Rightarrow> str list" where
  "split_on sep s = split_from sep [] s"

text \<open>\<^verbatim>\<open>s.strip(chars)\<close> removes the characters of \<open>chars\<close> from both ends.\<close>

definition strip_chars :: "str \<Rightarrow> str \<Rightarrow> str" where
  "strip_chars chars s =
     rev (dropWhile (\<lambda>c. c \<in> set chars) (rev (dropWhile (\<lambda>c. c \<in> set chars) s)))"

text \<open>
  \<^verbatim>\<open>s.strip()\<close> removes white space from both ends; the characters are those of
  \<^verbatim>\<open>str.isspace\<close>.
\<close>

definition isspace :: "nat \<Rightarrow> bool" where
  "isspace c = ((0x09 \<le> c \<and> c \<le> 0x0D) \<or> (0x1C \<le> c \<and> c \<le> 0x20) \<or> c = 0x85 \<or> c = 0xA0
     \<or> c = 0x1680 \<or> (0x2000 \<le> c \<and> c \<le> 0x200A) \<or> c = 0x2028 \<or> c = 0x2029
     \<or> c = 0x202F \<or> c = 0x205F \<or> c = 0x3000)"

definition strip :: "str \<Rightarrow> str" where
  "strip s = rev (dropWhile isspace (rev (dropWhile isspace s)))"

subsection \<open>\<^verbatim>\<open>str.isdigit\<close> and \<^verbatim>\<open>int\<close>\<close>

text \<open>
  \<^verbatim>\<open>s.isdigit()\<close> holds when \<open>s\<close> is not empty and every character has the Unicode
  property Numeric_Type=Decimal or Numeric_Type=Digit. \<^verbatim>\<open>int(s)\<close> accepts the decimal
  characters only (of any script, with their values 0 to 9) and raises ValueError on a
  character that is a digit but not decimal (a superscript two, say), and on more digits
  than the interpreter's limit \<^verbatim>\<open>sys.get_int_max_str_digits()\<close> allows (0 is no limit).
  The Unicode database and the limit belong to the interpreter, not to the program: they
  are parameters, the record \<open>python\<close>. The source only calls \<^verbatim>\<open>int\<close> on strings that
  passed \<^verbatim>\<open>isdigit\<close>, which have no sign, white space or underscore.
\<close>

datatype numeric_type = NotDigit | Decimal nat | Digit

record python =
  numeric :: "nat \<Rightarrow> numeric_type"
  int_max_str_digits :: nat

definition isdigit :: "python \<Rightarrow> str \<Rightarrow> bool" where
  "isdigit py s = (s \<noteq> [] \<and> list_all (\<lambda>c. numeric py c \<noteq> NotDigit) s)"

fun digits_value :: "python \<Rightarrow> int \<Rightarrow> str \<Rightarrow> py_exc + int" where
  "digits_value py acc [] = Inr acc"
| "digits_value py acc (c # cs) =
     (case numeric py c of
        Decimal d \<Rightarrow> digits_value py (acc * 10 + int d) cs
      | _ \<Rightarrow> Inl ValueError)"

definition py_int :: "python \<Rightarrow> str \<Rightarrow> py_exc + int" where
  "py_int py s =
     (if s = [] \<or> (0 < int_max_str_digits py \<and> int_max_str_digits py < length s)
      then Inl ValueError else digits_value py 0 s)"

text \<open>The expression \<^verbatim>\<open>int(x) if x.isdigit() else 0\<close> of the source.\<close>

definition num_field :: "python \<Rightarrow> str \<Rightarrow> py_exc + int" where
  "num_field py x = (if isdigit py x then py_int py x else Inr 0)"

text \<open>
  An interpreter for the examples: the ASCII digits, and the default limit of 4300 digits.
\<close>

definition ascii_python :: python where
  "ascii_python = \<lparr>numeric = (\<lambda>c. if 0x30 \<le> c \<and> c \<le> 0x39 then Decimal (c - 0x30) else NotDigit),
                    int_max_str_digits = 4300\<rparr>"

subsection \<open>\<^verbatim>\<open>bytes.find\<close> and \<^verbatim>\<open>struct.pack(">Q", x)\<close>\<close>

text \<open>\<^verbatim>\<open>data.find(sub)\<close>: the lowest index at which \<open>sub\<close> starts in \<open>data\<close>, or -1.\<close>

fun find_from :: "nat \<Rightarrow> bytes \<Rightarrow> bytes \<Rightarrow> int" where
  "find_from i [] sub = (if sub = [] then int i else - 1)"
| "find_from i (x # xs) sub =
     (if take (length sub) (x # xs) = sub then int i else find_from (Suc i) xs sub)"

definition find_bytes :: "bytes \<Rightarrow> bytes \<Rightarrow> int" where
  "find_bytes data sub = find_from 0 data sub"

text \<open>
  Eight bytes, most significant first. \<^verbatim>\<open>struct.pack\<close> raises \<^verbatim>\<open>struct.error\<close> on a
  value that is not an unsigned 64-bit integer.
\<close>

definition be64 :: "64 word \<Rightarrow> bytes" where
  "be64 w = map (\<lambda>i. ucast (drop_bit (8 * i) w)) [7, 6, 5, 4, 3, 2, 1, 0]"

definition pack_Q :: "int \<Rightarrow> py_exc + bytes" where
  "pack_Q x = (if 0 \<le> x \<and> x < 2 ^ 64 then Inr (be64 (word_of_int x)) else Inl StructError)"

section \<open>The discovery probe: \<^verbatim>\<open>bedrock_status\<close>\<close>

text \<open>
  The result dictionary: a key that the dictionary does not have is \<open>None\<close>.
  \<open>offline\<close> is \<^verbatim>\<open>{"online": False}\<close> and \<open>answered\<close> is \<^verbatim>\<open>{"online": True}\<close>.
\<close>

record ping_result =
  online :: bool
  motd :: "str option"
  version :: "str option"
  players :: "str list option"
  player_count :: "int option"
  max_players :: "int option"

definition offline :: ping_result where
  "offline = \<lparr>online = False, motd = None, version = None, players = None,
               player_count = None, max_players = None\<rparr>"

definition answered :: ping_result where
  "answered = \<lparr>online = True, motd = None, version = None, players = None,
                player_count = None, max_players = None\<rparr>"

text \<open>
  The network of one call: whether \<^verbatim>\<open>socket.socket\<close> and \<^verbatim>\<open>settimeout\<close> return,
  whether \<^verbatim>\<open>sendto\<close> returns, what \<^verbatim>\<open>recvfrom(2048)\<close> returns (\<open>None\<close> when it raises,
  as it does after \<^verbatim>\<open>MC_TIMEOUT\<close> seconds without a datagram), and whether \<^verbatim>\<open>close\<close>
  returns.
\<close>

record udp =
  socket_ok :: bool
  sendto_ok :: bool
  recvfrom :: "bytes option"
  close_ok :: bool

definition magic :: bytes where
  "magic = [0x00, 0xFF, 0xFF, 0x00, 0xFE, 0xFE, 0xFE, 0xFE,
            0xFD, 0xFD, 0xFD, 0xFD, 0x12, 0x34, 0x56, 0x78]"

text \<open>
  Line 71. \<open>ms\<close> is the value of \<^verbatim>\<open>int(time.time()*1000)\<close> and \<open>guid\<close> that of
  \<^verbatim>\<open>random.getrandbits(64)\<close>, which is below \<open>2 ^ 64\<close> by its type.
\<close>

definition ping_payload :: "int \<Rightarrow> 64 word \<Rightarrow> py_exc + bytes" where
  "ping_payload ms guid =
     bnd (pack_Q ms) (\<lambda>t. bnd (pack_Q (uint guid)) (\<lambda>g. Inr ([0x01] @ t @ magic @ g)))"

text \<open>Lines 86 and 87: the list \<^verbatim>\<open>parts\<close>, for a datagram in which \<open>magic\<close> occurs.\<close>

definition pong_fields :: "bytes \<Rightarrow> str list" where
  "pong_fields data =
     split_on 0x3B (strip_chars [0]
       (decode_utf8 Ignore (drop (nat (find_bytes data magic + int (length magic))) data)))"

text \<open>
  The field list as the specification words it, for comparison with \<open>pong_fields\<close>:
  the bytes after the magic constant decoded with invalid sequences replaced, trailing NUL
  characters stripped, then split on \<open>;\<close>.
\<close>

definition rstrip_chars :: "str \<Rightarrow> str \<Rightarrow> str" where
  "rstrip_chars chars s = rev (dropWhile (\<lambda>c. c \<in> set chars) (rev s))"

definition spec_pong_fields :: "bytes \<Rightarrow> str list" where
  "spec_pong_fields data =
     split_on 0x3B (rstrip_chars [0]
       (decode_utf8 Replace (drop (nat (find_bytes data magic + int (length magic))) data)))"

text \<open>Lines 76 to 101: what the probe makes of the datagram it received.\<close>

definition read_pong :: "python \<Rightarrow> bytes \<Rightarrow> py_exc + ping_result" where
  "read_pong py data =
     (if data = [] \<or> hd data \<noteq> 0x1C then Inr offline
      else if find_bytes data magic = - 1 then Inr answered
      else
        (let parts = pong_fields data in
         bnd (if 4 < length parts \<and> isdigit py (parts ! 4) then py_int py (parts ! 4) else Inr 0)
           (\<lambda>onl.
         bnd (if 5 < length parts \<and> isdigit py (parts ! 5) then py_int py (parts ! 5) else Inr 0)
           (\<lambda>maxp.
         Inr \<lparr>online = True,
              motd = Some (if 1 < length parts then parts ! 1 else lit ''Minecraft Bedrock''),
              version = Some (if 3 < length parts then parts ! 3 else lit ''Bedrock''),
              players = Some [],
              player_count = Some onl,
              max_players = Some maxp\<rparr>))))"

text \<open>
  The body of the \<^verbatim>\<open>try\<close> block: the datagrams it has sent, each with its destination,
  and its result or the exception that ended it.
\<close>

definition bedrock_body ::
  "python \<Rightarrow> udp \<Rightarrow> str \<Rightarrow> int \<Rightarrow> int \<Rightarrow> 64 word
     \<Rightarrow> (bytes \<times> str \<times> int) list \<times> (py_exc + ping_result)" where
  "bedrock_body py net host port ms guid =
     (if \<not> socket_ok net then ([], Inl OSError)
      else
        (case ping_payload ms guid of
           Inl e \<Rightarrow> ([], Inl e)
         | Inr payload \<Rightarrow>
             (if \<not> sendto_ok net then ([], Inl OSError)
              else
                (case recvfrom net of
                   None \<Rightarrow> ([(payload, host, port)], Inl OSError)
                 | Some data \<Rightarrow>
                     (if \<not> close_ok net then ([(payload, host, port)], Inl OSError)
                      else ([(payload, host, port)], read_pong py data))))))"

definition bedrock_sent ::
  "python \<Rightarrow> udp \<Rightarrow> str \<Rightarrow> int \<Rightarrow> int \<Rightarrow> 64 word \<Rightarrow> (bytes \<times> str \<times> int) list" where
  "bedrock_sent py net host port ms guid = fst (bedrock_body py net host port ms guid)"

text \<open>\<^verbatim>\<open>except Exception: return {"online": False}\<close>\<close>

definition bedrock_status ::
  "python \<Rightarrow> udp \<Rightarrow> str \<Rightarrow> int \<Rightarrow> int \<Rightarrow> 64 word \<Rightarrow> ping_result" where
  "bedrock_status py net host port ms guid =
     (case snd (bedrock_body py net host port ms guid) of
        Inl e \<Rightarrow> offline
      | Inr r \<Rightarrow> r)"

section \<open>The peer dump: \<^verbatim>\<open>vpn_status\<close>\<close>

record iface_info =
  public_key :: str
  listen_port :: "int option"

record peer =
  peer_key :: str
  endpoint :: str
  allowed_ips :: str
  latest_handshake :: int
  handshake_age_sec :: "int option"
  transfer_rx :: int
  transfer_tx :: int
  persistent_keepalive :: "int option"

record vpn =
  vpn_type :: str
  vpn_iface :: "str option"
  running :: bool
  interface_info :: "iface_info option"
  peers :: "peer list option"

text \<open>
  Lines 212 to 230, for the fields \<open>p\<close> of one peer line. The subscripts and conversions
  are in the order in which the source evaluates them; the first that raises ends the
  line. A value that is \<^verbatim>\<open>None\<close> in the dictionary is \<open>None\<close> here; an endpoint or
  allowed-IPs entry that the dump gives as \<^verbatim>\<open>(none)\<close> is the empty string.
\<close>

definition parse_peer :: "python \<Rightarrow> int \<Rightarrow> str list \<Rightarrow> py_exc + peer" where
  "parse_peer py now p =
     bnd (item p 0) (\<lambda>pk.
     bnd (item p 2) (\<lambda>p2.
     bnd (item p 3) (\<lambda>p3.
     bnd (item p 4) (\<lambda>p4. bnd (num_field py p4) (\<lambda>hs.
     bnd (item p 5) (\<lambda>p5. bnd (num_field py p5) (\<lambda>rx.
     bnd (item p 6) (\<lambda>p6. bnd (num_field py p6) (\<lambda>tx.
     bnd (item p 7) (\<lambda>p7. bnd (num_field py p7) (\<lambda>keep.
       Inr \<lparr>peer_key = pk,
            endpoint = (if p2 \<noteq> lit ''(none)'' then p2 else []),
            allowed_ips = (if p3 \<noteq> lit ''(none)'' then p3 else []),
            latest_handshake = hs,
            handshake_age_sec = (if hs \<noteq> 0 then Some (now - hs) else None),
            transfer_rx = rx,
            transfer_tx = tx,
            persistent_keepalive = (if keep \<noteq> 0 then Some keep else None)\<rparr>)))))))))))"

text \<open>The loop of lines 211 to 232: a line that raises is left out.\<close>

fun parse_peers :: "python \<Rightarrow> int \<Rightarrow> str list \<Rightarrow> peer list" where
  "parse_peers py now [] = []"
| "parse_peers py now (l # ls) =
     (case parse_peer py now (split_on 0x09 l) of
        Inl e \<Rightarrow> parse_peers py now ls
      | Inr r \<Rightarrow> r # parse_peers py now ls)"

text \<open>Line 207. The conversion is outside any \<^verbatim>\<open>try\<close>: if it raises, the call raises.\<close>

definition parse_iface :: "python \<Rightarrow> str list \<Rightarrow> py_exc + iface_info" where
  "parse_iface py parts =
     bnd (if 2 < length parts \<and> isdigit py (parts ! 2)
          then bnd (py_int py (parts ! 2)) (\<lambda>v. Inr (Some v)) else Inr None)
       (\<lambda>port. Inr \<lparr>public_key = (if 1 < length parts then parts ! 1 else []),
                     listen_port = port\<rparr>)"

text \<open>Lines 202 to 234: the dump \<open>raw\<close>, not empty, read at the time \<open>now\<close>.\<close>

definition dump_lines :: "str \<Rightarrow> str list" where
  "dump_lines raw = filter (\<lambda>l. strip l \<noteq> []) (splitlines raw)"

definition parse_dump :: "python \<Rightarrow> str \<Rightarrow> str \<Rightarrow> int \<Rightarrow> py_exc + vpn" where
  "parse_dump py iface raw now =
     (case dump_lines raw of
        [] \<Rightarrow> Inr \<lparr>vpn_type = lit ''wireguard'', vpn_iface = Some iface, running = False,
                   interface_info = None, peers = Some []\<rparr>
      | l0 # ls \<Rightarrow>
          bnd (parse_iface py (split_on 0x09 l0)) (\<lambda>info.
            Inr \<lparr>vpn_type = lit ''wireguard'', vpn_iface = Some iface, running = True,
                 interface_info = Some info, peers = Some (parse_peers py now ls)\<rparr>))"

text \<open>
  \<^verbatim>\<open>try_cmd\<close>, lines 36 to 41: \<open>out\<close> is the text that \<^verbatim>\<open>subprocess.check_output\<close>
  returns, \<open>None\<close> when it raises (the command fails, exits with an error, runs for more
  than two seconds, or its output is not text).
\<close>

definition try_cmd :: "str option \<Rightarrow> str" where
  "try_cmd out = (case out of None \<Rightarrow> [] | Some s \<Rightarrow> strip s)"

text \<open>
  The host of one call: \<open>wg_out\<close> is the outcome of the command
  \<^verbatim>\<open>sudo /usr/bin/wg show <iface> dump\<close>, \<open>has_systemctl\<close> is whether \<^verbatim>\<open>shutil.which\<close>
  finds systemctl, and \<open>systemctl_out\<close> is the outcome of \<^verbatim>\<open>systemctl is-active\<close> for the
  unit of the interface.
\<close>

record host =
  wg_out :: "str option"
  has_systemctl :: bool
  systemctl_out :: "str option"

definition vpn_status :: "python \<Rightarrow> host \<Rightarrow> str \<Rightarrow> int \<Rightarrow> py_exc + vpn" where
  "vpn_status py h iface now =
     (let raw = try_cmd (wg_out h) in
      if raw = [] then
        (if has_systemctl h then
           Inr \<lparr>vpn_type = lit ''wireguard'', vpn_iface = Some iface,
                running = (try_cmd (systemctl_out h) = lit ''active''), interface_info = None,
                peers = Some []\<rparr>
         else
           Inr \<lparr>vpn_type = lit ''unknown'', vpn_iface = None, running = False,
                interface_info = None, peers = None\<rparr>)
      else parse_dump py iface raw now)"

section \<open>Proofs: the tail reader\<close>

subsection \<open>Decoding and line splitting around a line feed\<close>

text \<open>
  The byte 0x0A ends whatever sequence the decoder is in and is decoded as the character
  LF, after which the decoder is in its start state: decoding splits at a line feed.
\<close>

lemma step_LF: "step m st 0x0A = ((if st = Start then [] else on_error m) @ [0x0A], Start)"
  by (cases st) (simp_all add: lead_def retry_def is_cont_def)

lemma utf8_run_LF:
  "utf8_run m st (x @ 0x0A # y) = utf8_run m st x @ 0x0A # utf8_run m Start y"
  by (induction x arbitrary: st) (simp_all add: step_LF)

lemma splitlines_from_LF:
  "splitlines_from cur (u @ 0x0A # v) = splitlines_from cur (u @ [0x0A]) @ splitlines_from [] v"
proof (induction cur u rule: splitlines_from.induct)
  case (1 cur)
  show ?case by (cases v) (simp_all add: line_boundary_def)
next
  case (2 cur c)
  show ?case by (cases v) (simp_all add: line_boundary_def)
next
  case (3 cur c d cs)
  then show ?case by simp
qed

lemma splitlines_from_Nil: "splitlines_from cur u = [] \<longleftrightarrow> cur = [] \<and> u = []"
proof (induction cur u rule: splitlines_from.induct)
  case (1 cur)
  show ?case by simp
next
  case (2 cur c)
  show ?case by simp
next
  case (3 cur c d cs)
  then show ?case by simp
qed

lemma splitlines_from_LF_nonempty: "splitlines_from cur (u @ [0x0A]) \<noteq> []"
  by (simp add: splitlines_from_Nil)

lemma lines_after_LF:
  "file_lines (x @ 0x0A # y) = splitlines_from [] (decode_utf8 Replace x @ [0x0A]) @ file_lines y"
  unfolding file_lines_def splitlines_def decode_utf8_def utf8_run_LF
  by (rule splitlines_from_LF)

lemma count_LF_lines: "n \<le> count_list c 0x0A \<Longrightarrow> n \<le> length (file_lines c)"
proof (induction n arbitrary: c)
  case 0
  show ?case by simp
next
  case (Suc n)
  then have "(0x0A :: byte) \<in> set c" by (metis count_list_0_iff not_less_eq_eq zero_le)
  then obtain a r where c: "c = a @ 0x0A # r" and "0x0A \<notin> set a" by (metis split_list_first)
  then have "n \<le> count_list r 0x0A" using Suc.prems by simp
  then have "n \<le> length (file_lines r)" by (rule Suc.IH)
  moreover have "splitlines_from [] (decode_utf8 Replace a @ [0x0A]) \<noteq> []"
    by (rule splitlines_from_LF_nonempty)
  then have "1 \<le> length (splitlines_from [] (decode_utf8 Replace a @ [0x0A]))"
    by (simp add: Suc_le_eq)
  ultimately show ?case by (simp add: c lines_after_LF)
qed

subsection \<open>The backward scan\<close>

lemma take_drop_block:
  assumes "k \<le> sz" "sz \<le> length c"
  shows "take k (drop (sz - k) c) @ drop sz c = drop (sz - k) c"
proof -
  have "drop sz c = drop k (drop (sz - k) c)" using assms by simp
  then show ?thesis by (metis append_take_drop_id)
qed

lemma tail_scan_readable:
  assumes "0 < block"
  shows "sz \<le> length c \<Longrightarrow>
    \<exists>sz'. tail_scan block (readable c) n sz (drop sz c) = Some (Inr (sz', drop sz' c))
      \<and> sz' \<le> sz \<and> (sz' = 0 \<or> n < int (count_list (drop sz' c) 0x0A))"
proof (induction sz rule: less_induct)
  case (less sz)
  show ?case
  proof (cases "0 < sz \<and> int (count_list (drop sz c) 0x0A) \<le> n")
    case True
    let ?k = "min block sz"
    have lt: "sz - ?k < sz" using True assms by simp
    have le: "sz - ?k \<le> length c" using less.prems by simp
    have blk: "take ?k (drop (sz - ?k) c) @ drop sz c = drop (sz - ?k) c"
      using less.prems by (intro take_drop_block) simp_all
    obtain sz' where r: "tail_scan block (readable c) n (sz - ?k) (drop (sz - ?k) c)
        = Some (Inr (sz', drop sz' c))"
      and b: "sz' \<le> sz - ?k" and e: "sz' = 0 \<or> n < int (count_list (drop sz' c) 0x0A)"
      using less.IH [OF lt le] by blast
    have "tail_scan block (readable c) n sz (drop sz c)
        = tail_scan block (readable c) n (sz - ?k) (take ?k (drop (sz - ?k) c) @ drop sz c)"
      using True by (subst tail_scan.simps) (simp add: readable_def)
    then have "tail_scan block (readable c) n sz (drop sz c) = Some (Inr (sz', drop sz' c))"
      using r blk by simp
    then show ?thesis using b e by auto
  next
    case False
    then have "tail_scan block (readable c) n sz (drop sz c) = Some (Inr (sz, drop sz c))"
      by (subst tail_scan.simps) auto
    then show ?thesis using False by auto
  qed
qed

lemma tail_scan_exits:
  assumes "0 < block"
  shows "\<exists>r. tail_scan block f n sz data = Some r
     \<and> (\<forall>sz' data'. r = Inr (sz', data') \<longrightarrow> sz' = 0 \<or> n < int (count_list data' 0x0A))
     \<and> ((\<forall>pos k. seek_read f pos k \<noteq> None) \<longrightarrow> (\<exists>sz' data'. r = Inr (sz', data')))"
proof (induction sz arbitrary: data rule: less_induct)
  case (less sz)
  show ?case
  proof (cases "0 < sz \<and> int (count_list data 0x0A) \<le> n")
    case True
    let ?k = "min block sz"
    have lt: "sz - ?k < sz" using True assms by simp
    show ?thesis
    proof (cases "seek_read f (sz - ?k) ?k")
      case None
      then have "tail_scan block f n sz data = Some (Inl OSError)"
        using True by (subst tail_scan.simps) simp
      then show ?thesis using None by auto
    next
      case (Some chunk)
      then have "tail_scan block f n sz data = tail_scan block f n (sz - ?k) (chunk @ data)"
        using True by (subst tail_scan.simps) simp
      then show ?thesis using less.IH [OF lt, of "chunk @ data"] by simp
    qed
  next
    case False
    then have "tail_scan block f n sz data = Some (Inr (sz, data))"
      by (subst tail_scan.simps) auto
    then show ?thesis using False by auto
  qed
qed

subsection \<open>The last lines of a suffix of the file\<close>

lemma slice_last_suffix:
  assumes "0 < n" "nat n \<le> length ys"
  shows "slice_last (xs @ ys) n = slice_last ys n"
  using assms by (simp add: slice_last_def)

lemma lines_of_suffix:
  assumes "0 < n" "n < int (count_list d 0x0A)"
  shows "slice_last (file_lines (p @ d)) n = slice_last (file_lines d) n"
proof -
  have "(0x0A :: byte) \<in> set d" using assms by (metis count_list_0_iff int_ops(1) less_le_not_le)
  then obtain a r where d: "d = a @ 0x0A # r" and "0x0A \<notin> set a" by (metis split_list_first)
  then have "nat n \<le> count_list r 0x0A" using assms by simp
  then have len: "nat n \<le> length (file_lines r)" by (rule count_LF_lines)
  have "file_lines (p @ d) = splitlines_from [] (decode_utf8 Replace (p @ a) @ [0x0A]) @ file_lines r"
    using lines_after_LF [of "p @ a" r] by (simp add: d)
  moreover have "file_lines d = splitlines_from [] (decode_utf8 Replace a @ [0x0A]) @ file_lines r"
    by (simp add: d lines_after_LF)
  ultimately show ?thesis using assms(1) len by (simp add: slice_last_suffix)
qed

lemma tail_file_blk_readable:
  assumes "0 < n" "0 < block" "fs path = Some (readable c)"
  shows "tail_file_blk block fs path n = Some (slice_last (file_lines c) n)"
proof -
  obtain sz' where r: "tail_scan block (readable c) n (length c) (drop (length c) c) = Some (Inr (sz', drop sz' c))"
    and e: "sz' = 0 \<or> n < int (count_list (drop sz' c) 0x0A)"
    using tail_scan_readable [OF assms(2), of "length c" c n] by blast
  have "slice_last (file_lines (drop sz' c)) n = slice_last (file_lines c) n"
  proof (cases "sz' = 0")
    case True
    then show ?thesis by simp
  next
    case False
    then have "n < int (count_list (drop sz' c) 0x0A)" using e by simp
    from lines_of_suffix [OF assms(1) this, of "take sz' c"] show ?thesis by simp
  qed
  then show ?thesis using r assms(3)
    by (simp add: tail_file_blk_def tail_body_def readable_def file_lines_def)
qed

subsection \<open>Files of terminated ASCII lines\<close>

text \<open>
  A file written as lines of ASCII characters, none of them a line boundary, each ended by
  a line feed, has exactly those lines.
\<close>

lemma splitlines_from_prefix:
  assumes "\<forall>c \<in> set k. \<not> line_boundary c"
  shows "splitlines_from cur (k @ rest) = splitlines_from (cur @ k) rest"
  using assms
proof (induction k arbitrary: cur)
  case Nil
  show ?case by simp
next
  case (Cons c k)
  have nb: "\<not> line_boundary c" and cr: "c \<noteq> 0x0D"
    using Cons.prems by (auto simp add: line_boundary_def)
  have IH: "splitlines_from (cur @ [c]) (k @ rest) = splitlines_from ((cur @ [c]) @ k) rest"
    using Cons.prems by (intro Cons.IH) simp
  show ?case
  proof (cases "k @ rest")
    case Nil
    then show ?thesis using nb by simp
  next
    case (Cons d cs)
    then have "splitlines_from cur (c # k @ rest) = splitlines_from (cur @ [c]) (k @ rest)"
      using nb cr by simp
    then show ?thesis using IH by simp
  qed
qed

lemma utf8_run_ascii:
  "\<forall>b \<in> set bs. b < 0x80 \<Longrightarrow> utf8_run m Start bs = map unat bs"
  by (induction bs) (simp_all add: lead_def)

lemma splitlines_from_line:
  assumes "\<forall>c \<in> set l. \<not> line_boundary c"
  shows "splitlines_from cur (l @ 0x0A # rest) = (cur @ l) # splitlines_from [] rest"
proof -
  have "splitlines_from cur (l @ 0x0A # rest) = splitlines_from (cur @ l) (0x0A # rest)"
    using assms by (rule splitlines_from_prefix)
  also have "\<dots> = (cur @ l) # splitlines_from [] rest"
    by (cases rest) (simp_all add: line_boundary_def)
  finally show ?thesis .
qed

lemma splitlines_terminated:
  "\<forall>l \<in> set ls. \<forall>c \<in> set l. \<not> line_boundary c \<Longrightarrow>
     splitlines_from [] (concat (map (\<lambda>l. l @ [0x0A]) ls)) = ls"
proof (induction ls)
  case Nil
  show ?case by simp
next
  case (Cons l ls)
  then have "splitlines_from [] (l @ 0x0A # concat (map (\<lambda>l. l @ [0x0A]) ls))
      = ([] @ l) # splitlines_from [] (concat (map (\<lambda>l. l @ [0x0A]) ls))"
    by (intro splitlines_from_line) simp
  then show ?case using Cons by simp
qed

lemma file_lines_terminated:
  assumes "\<forall>l \<in> set ls. \<forall>b \<in> set l. b < 0x80 \<and> \<not> line_boundary (unat b)"
  shows "file_lines (concat (map (\<lambda>l. l @ [0x0A]) ls)) = map (map unat) ls"
proof -
  have "\<forall>b \<in> set (concat (map (\<lambda>l. l @ [0x0A]) ls)). b < 0x80"
    using assms by auto
  then have "decode_utf8 Replace (concat (map (\<lambda>l. l @ [0x0A]) ls))
      = map unat (concat (map (\<lambda>l. l @ [0x0A]) ls))"
    unfolding decode_utf8_def by (rule utf8_run_ascii)
  also have "\<dots> = concat (map (\<lambda>l. l @ [0x0A]) (map (map unat) ls))"
    by (simp add: map_concat comp_def)
  finally have "file_lines (concat (map (\<lambda>l. l @ [0x0A]) ls))
      = splitlines_from [] (concat (map (\<lambda>l. l @ [0x0A]) (map (map unat) ls)))"
    by (simp add: file_lines_def splitlines_def)
  also have "\<dots> = map (map unat) ls"
    using assms by (intro splitlines_terminated) auto
  finally show ?thesis .
qed

lemma count_list_replicate_other: "x \<noteq> y \<Longrightarrow> count_list (replicate n x) y = 0"
  by (induction n) simp_all

subsection \<open>The claims about the tail reader\<close>

text \<open>
  C1. On a readable file with contents \<open>c\<close>, for every line count \<open>n \<ge> 1\<close>,
  \<^verbatim>\<open>tail_file\<close> returns the last \<open>min n L\<close> of the \<open>L\<close> lines of the file, in the order of
  the file, and the scan gives the same result with every block size other than 0. In
  particular, for a file of lines that each end with a line feed (ASCII text), the result
  is the last \<open>n\<close> of them, and all of them when there are at most \<open>n\<close>: the last 50 of
  1000 lines, all of 10 lines.
\<close>

theorem tail_file_last_lines:
  assumes "1 \<le> n" and "fs path = Some (readable c)"
  shows "tail_file fs path n
           = Some (drop (length (file_lines c) - min (nat n) (length (file_lines c))) (file_lines c))
       \<and> (\<forall>block. 0 < block \<longrightarrow> tail_file_blk block fs path n = tail_file fs path n)
       \<and> (\<forall>ls. c = concat (map (\<lambda>l. l @ [0x0A]) ls)
                \<and> (\<forall>l \<in> set ls. \<forall>b \<in> set l. b < 0x80 \<and> \<not> line_boundary (unat b))
              \<longrightarrow> tail_file fs path n = Some (map (map unat) (drop (length ls - nat n) ls)))"
proof -
  have n: "0 < n" using assms(1) by simp
  have blk: "tail_file_blk block fs path n = Some (slice_last (file_lines c) n)" if "0 < block" for block
    using n that assms(2) by (rule tail_file_blk_readable)
  have last: "slice_last xs n = drop (length xs - min (nat n) (length xs)) xs" for xs :: "str list"
    using n by (simp add: slice_last_def min_def)
  have src: "tail_file fs path n = Some (slice_last (file_lines c) n)"
    using blk [of 1024] by (simp add: tail_file_def)
  have asc: "tail_file fs path n = Some (map (map unat) (drop (length ls - nat n) ls))"
    if c: "c = concat (map (\<lambda>l. l @ [0x0A]) ls)"
      and a: "\<forall>l \<in> set ls. \<forall>b \<in> set l. b < 0x80 \<and> \<not> line_boundary (unat b)" for ls
  proof -
    have "file_lines c = map (map unat) ls"
      unfolding c using a by (rule file_lines_terminated)
    then show ?thesis using n by (simp add: src slice_last_def drop_map)
  qed
  show ?thesis using src last blk asc by (simp add: tail_file_def)
qed

text \<open>
  A file of three lines, read with the block size of the source and in blocks of 2 bytes,
  and read for more lines than it has.
\<close>

theorem tail_file_last_lines_witness:
  "tail_file (\<lambda>p. Some (readable [0x61, 0x0A, 0x62, 0x0A, 0x63, 0x0A])) (lit ''log'') 2
     = Some [[0x62], [0x63]]
   \<and> tail_file_blk 2 (\<lambda>p. Some (readable [0x61, 0x0A, 0x62, 0x0A, 0x63, 0x0A])) (lit ''log'') 2
     = Some [[0x62], [0x63]]
   \<and> tail_file (\<lambda>p. Some (readable [0x61, 0x0A, 0x62, 0x0A, 0x63, 0x0A])) (lit ''log'') 50
     = Some [[0x61], [0x62], [0x63]]"
proof -
  let ?c = "[0x61, 0x0A, 0x62, 0x0A, 0x63, 0x0A] :: bytes"
  let ?fs = "\<lambda>p :: str. Some (readable ?c)"
  let ?ls = "[[0x61], [0x62], [0x63]] :: bytes list"
  have p: "?fs (lit ''log'') = Some (readable ?c)" by (rule refl)
  have n2: "(1 :: int) \<le> 2" and n50: "(1 :: int) \<le> 50" by simp_all
  note t2 = tail_file_last_lines [OF n2 p]
  note t50 = tail_file_last_lines [OF n50 p]
  have l: "file_lines ?c = [[0x61], [0x62], [0x63]]"
    by code_simp
  have 1: "tail_file ?fs (lit ''log'') 2 = Some [[0x62], [0x63]]"
    using t2 [THEN conjunct1] by (simp add: l)
  have "tail_file_blk 2 ?fs (lit ''log'') 2 = tail_file ?fs (lit ''log'') 2"
    using t2 [THEN conjunct2, THEN conjunct1] by simp
  then have 2: "tail_file_blk 2 ?fs (lit ''log'') 2 = Some [[0x62], [0x63]]"
    by (simp only: 1)
  have c: "?c = concat (map (\<lambda>l. l @ [0x0A]) ?ls)" by simp
  have a: "\<forall>l \<in> set ?ls. \<forall>b \<in> set l. b < 0x80 \<and> \<not> line_boundary (unat b)"
    by (simp add: line_boundary_def)
  have "tail_file ?fs (lit ''log'') 50 = Some (map (map unat) (drop (length ?ls - nat 50) ?ls))"
    using t50 [THEN conjunct2, THEN conjunct2] c a by blast
  moreover have "map (map unat) (drop (length ?ls - nat 50) ?ls) = [[0x61], [0x62], [0x63]]"
    by simp
  ultimately have 3: "tail_file ?fs (lit ''log'') 50 = Some [[0x61], [0x62], [0x63]]"
    by (simp only:)
  show ?thesis by (intro conjI; fact)
qed

text \<open>
  C8. \<^verbatim>\<open>tail_file\<close> returns a list for every file system, path and line count: it neither
  raises nor runs forever. The list is empty when the file cannot be opened, when finding
  its size fails, when a read fails at any step of the scan (whatever had been read
  before), and when the file is empty.
\<close>

theorem tail_file_total:
  "\<exists>ls. tail_file fs path n = Some ls
     \<and> (fs path = None \<longrightarrow> ls = [])
     \<and> (\<forall>f. fs path = Some f \<and> seek_end_tell f = None \<longrightarrow> ls = [])
     \<and> (\<forall>f sz e. fs path = Some f \<and> seek_end_tell f = Some sz
            \<and> tail_scan 1024 f n sz [] = Some (Inl e) \<longrightarrow> ls = [])
     \<and> (\<forall>f. fs path = Some f \<and> seek_end_tell f = Some 0 \<longrightarrow> ls = [])"
proof (cases "fs path")
  case None
  then show ?thesis by (simp add: tail_file_def tail_file_blk_def tail_body_def)
next
  case (Some f)
  show ?thesis
  proof (cases "seek_end_tell f")
    case None
    then show ?thesis using Some by (simp add: tail_file_def tail_file_blk_def tail_body_def)
  next
    case sz: (Some sz)
    obtain r where r: "tail_scan 1024 f n sz [] = Some r"
      using tail_scan_exits [of 1024 f n sz "[]"] by auto
    have zero: "tail_scan 1024 f n 0 [] = Some (Inr (0, []))"
      by (subst tail_scan.simps) simp
    show ?thesis
    proof (cases r)
      case (Inl e)
      then show ?thesis using Some sz r zero
        by (auto simp add: tail_file_def tail_file_blk_def tail_body_def)
    next
      case (Inr p)
      then show ?thesis using Some sz r zero
        by (cases p)
          (auto simp add: tail_file_def tail_file_blk_def tail_body_def decode_utf8_def
            splitlines_def slice_last_def)
    qed
  qed
qed

text \<open>
  A missing file, a file whose size cannot be found, a file of 2000 bytes whose second
  read fails after the first has returned a block, and an empty file.
\<close>

theorem tail_file_total_witness:
  "tail_file (\<lambda>p. None) (lit ''/nonexistent'') 10 = Some []
   \<and> tail_file (\<lambda>p. Some \<lparr>seek_end_tell = None, seek_read = (\<lambda>pos k. None)\<rparr>) (lit ''log'') 10 = Some []
   \<and> tail_file (\<lambda>p. Some \<lparr>seek_end_tell = Some 2000,
         seek_read = (\<lambda>pos k. if pos = 0 then None else Some (replicate k 0x41))\<rparr>) (lit ''log'') 10
       = Some []
   \<and> tail_file (\<lambda>p. Some (readable [])) (lit ''log'') 10 = Some []"
proof -
  let ?f = "\<lparr>seek_end_tell = Some 2000,
         seek_read = (\<lambda>pos k. if pos = 0 then None else Some (replicate k (0x41 :: byte)))\<rparr>"
  have s: "tail_scan 1024 ?f 10 2000 [] = Some (Inl OSError)"
    apply (subst tail_scan.simps)
    apply simp
    apply (subst tail_scan.simps)
    apply (simp add: count_list_replicate_other)
    done
  obtain l1 where 1: "tail_file (\<lambda>p. None) (lit ''/nonexistent'') 10 = Some l1" "l1 = []"
    using tail_file_total [of "\<lambda>p. None" "lit ''/nonexistent''" 10] by auto
  obtain l2 where 2: "tail_file (\<lambda>p. Some \<lparr>seek_end_tell = None, seek_read = (\<lambda>pos k. None)\<rparr>)
       (lit ''log'') 10 = Some l2" "l2 = []"
    using tail_file_total [of "\<lambda>p. Some \<lparr>seek_end_tell = None, seek_read = (\<lambda>pos k. None)\<rparr>"
        "lit ''log''" 10] by auto
  obtain l3 where 3: "tail_file (\<lambda>p. Some ?f) (lit ''log'') 10 = Some l3" "l3 = []"
    using tail_file_total [of "\<lambda>p. Some ?f" "lit ''log''" 10] s by auto
  obtain l4 where 4: "tail_file (\<lambda>p. Some (readable [])) (lit ''log'') 10 = Some l4" "l4 = []"
    using tail_file_total [of "\<lambda>p. Some (readable [])" "lit ''log''" 10]
    by (auto simp add: readable_def)
  show ?thesis using 1 2 3 4 by simp
qed

text \<open>
  C10. The loop of the source (blocks of 1024 bytes) ends from every state, on every file
  and for every \<open>n\<close>. When it ends normally, the start of the file has been reached or the
  buffer holds more than \<open>n\<close> line feeds; it ends normally whenever no read fails.
\<close>

theorem tail_scan_terminates:
  "\<exists>r. tail_scan 1024 f n sz data = Some r
     \<and> (\<forall>sz' data'. r = Inr (sz', data') \<longrightarrow> sz' = 0 \<or> n < int (count_list data' 0x0A))
     \<and> ((\<forall>pos k. seek_read f pos k \<noteq> None) \<longrightarrow> (\<exists>sz' data'. r = Inr (sz', data')))"
proof (induction sz arbitrary: data rule: less_induct)
  case (less sz)
  show ?case
  proof (cases "0 < sz \<and> int (count_list data 0x0A) \<le> n")
    case True
    let ?k = "min 1024 sz"
    have "1 \<le> ?k" using True by simp
    then have smaller: "sz - ?k < sz" using True by simp
    show ?thesis
    proof (cases "seek_read f (sz - ?k) ?k")
      case None
      then have "tail_scan 1024 f n sz data = Some (Inl OSError)"
        using True by (subst tail_scan.simps) simp
      then show ?thesis using None by auto
    next
      case (Some chunk)
      then have "tail_scan 1024 f n sz data = tail_scan 1024 f n (sz - ?k) (chunk @ data)"
        using True by (subst tail_scan.simps) simp
      then show ?thesis using less.IH [OF smaller, of "chunk @ data"] by simp
    qed
  next
    case False
    then have "tail_scan 1024 f n sz data = Some (Inr (sz, data))"
      by (subst tail_scan.simps) auto
    then show ?thesis using False by auto
  qed
qed

text \<open>A file of three bytes: the loop ends at the start of the file.\<close>

theorem tail_scan_terminates_witness:
  "\<exists>sz' data'. tail_scan 1024 (readable [0x61, 0x0A, 0x62]) 1 3 [] = Some (Inr (sz', data'))
     \<and> (sz' = 0 \<or> 1 < int (count_list data' 0x0A))"
  using tail_scan_terminates [of "readable [0x61, 0x0A, 0x62]" 1 3 "[]"]
  by (auto simp add: readable_def)

section \<open>Proofs: the discovery probe\<close>

lemma bnd_Inr_iff: "bnd a f = Inr r \<longleftrightarrow> (\<exists>x. a = Inr x \<and> f x = Inr r)"
  by (cases a) simp_all

lemma take_length_iff: "take (length s) d = s \<longleftrightarrow> (\<exists>post. d = s @ post)"
proof
  assume "take (length s) d = s"
  then have "d = s @ drop (length s) d" by (metis append_take_drop_id)
  then show "\<exists>post. d = s @ post" ..
next
  assume "\<exists>post. d = s @ post"
  then show "take (length s) d = s" by auto
qed

lemma find_from_absent:
  "find_from i data sub = - 1 \<longleftrightarrow> \<not> (\<exists>pre post. data = pre @ sub @ post)"
proof (induction data arbitrary: i)
  case Nil
  show ?case by simp
next
  case (Cons x xs)
  show ?case
  proof (cases "take (length sub) (x # xs) = sub")
    case True
    then obtain post where "x # xs = sub @ post" using take_length_iff by blast
    then have "x # xs = [] @ sub @ post" by simp
    then have "\<exists>pre post. x # xs = pre @ sub @ post" by blast
    then show ?thesis using True by simp
  next
    case False
    have "(\<exists>pre post. x # xs = pre @ sub @ post) \<longleftrightarrow> (\<exists>pre post. xs = pre @ sub @ post)"
    proof
      assume "\<exists>pre post. x # xs = pre @ sub @ post"
      then obtain pre post where e: "x # xs = pre @ sub @ post" by blast
      show "\<exists>pre post. xs = pre @ sub @ post"
      proof (cases pre)
        case Nil
        then have "take (length sub) (x # xs) = sub" using e by simp
        then show ?thesis using False by simp
      next
        case (Cons y ys)
        then have "xs = ys @ sub @ post" using e by simp
        then show ?thesis by blast
      qed
    next
      assume "\<exists>pre post. xs = pre @ sub @ post"
      then obtain pre post where "xs = pre @ sub @ post" by blast
      then have "x # xs = (x # pre) @ sub @ post" by simp
      then show "\<exists>pre post. x # xs = pre @ sub @ post" by blast
    qed
    then show ?thesis using False Cons.IH [of "Suc i"] by simp
  qed
qed

lemma find_from_first:
  assumes "data = pre @ sub @ post"
    and "\<forall>pre' post'. data = pre' @ sub @ post' \<longrightarrow> length pre \<le> length pre'"
  shows "find_from i data sub = int (i + length pre)"
  using assms
proof (induction pre arbitrary: i data)
  case Nil
  then have "take (length sub) data = sub" by simp
  then show ?case by (cases data) (use Nil in auto)
next
  case (Cons x pre)
  have d: "data = x # (pre @ sub @ post)" using Cons.prems(1) by simp
  have "take (length sub) data \<noteq> sub"
  proof
    assume "take (length sub) data = sub"
    then obtain post' where "data = [] @ sub @ post'" using take_length_iff by auto
    then have "length (x # pre) \<le> length ([] :: bytes)" using Cons.prems(2) by blast
    then show False by simp
  qed
  moreover have "\<forall>pre' post'. pre @ sub @ post = pre' @ sub @ post' \<longrightarrow> length pre \<le> length pre'"
  proof (intro allI impI)
    fix pre' post'
    assume "pre @ sub @ post = pre' @ sub @ post'"
    then have "data = (x # pre') @ sub @ post'" using d by simp
    then have "length (x # pre) \<le> length (x # pre')" using Cons.prems(2) by blast
    then show "length pre \<le> length pre'" by simp
  qed
  then have "find_from (Suc i) (pre @ sub @ post) sub = int (Suc i + length pre)"
    using Cons.IH [of "pre @ sub @ post" "Suc i"] by simp
  ultimately show ?case using d by simp
qed

lemma pack_Q_guid: "pack_Q (uint (g :: 64 word)) = Inr (be64 g)"
proof -
  have "uint g < 2 ^ 64" using uint_lt2p [of g] by simp
  then show ?thesis by (simp add: pack_Q_def)
qed

lemma ping_payload_eq:
  "ping_payload ms guid =
     (if 0 \<le> ms \<and> ms < 2 ^ 64 then Inr ([0x01] @ be64 (word_of_int ms) @ magic @ be64 guid)
      else Inl StructError)"
  by (simp add: ping_payload_def pack_Q_guid) (simp add: pack_Q_def)

lemma bedrock_body_received:
  assumes "socket_ok net" "0 \<le> ms" "ms < 2 ^ 64" "sendto_ok net" "recvfrom net = Some data"
    "close_ok net"
  shows "snd (bedrock_body py net host port ms guid) = read_pong py data"
  using assms by (simp add: bedrock_body_def ping_payload_eq)

lemma read_pong_online:
  assumes "read_pong py data = Inr r"
  shows "r = offline \<or> online r"
  using assms
  by (auto simp add: read_pong_def answered_def Let_def bnd_Inr_iff split: if_splits)

subsection \<open>The claims about the discovery probe\<close>

text \<open>
  C3. For every host, port and call time the probe sends at most one datagram, to that
  host and port, and a datagram it sends is the byte 0x01, the time in milliseconds as
  eight bytes (most significant first), the sixteen bytes of the magic constant
  00 FF FF 00 FE FE FE FE FD FD FD FD 12 34 56 78 at offsets 9 to 24, and the eight bytes
  of the client identifier: 33 bytes. It sends exactly that one datagram whenever the
  socket can be made, the time is an unsigned 64-bit number and \<^verbatim>\<open>sendto\<close> returns.
\<close>

theorem ping_datagram_layout:
  "length (bedrock_sent py net host port ms guid) \<le> 1
   \<and> (\<forall>x \<in> set (bedrock_sent py net host port ms guid).
         x = ([0x01] @ be64 (word_of_int ms) @ magic @ be64 guid, host, port)
         \<and> 0 \<le> ms \<and> ms < 2 ^ 64
         \<and> length (fst x) = 33
         \<and> take 16 (drop 9 (fst x))
             = [0x00, 0xFF, 0xFF, 0x00, 0xFE, 0xFE, 0xFE, 0xFE,
                0xFD, 0xFD, 0xFD, 0xFD, 0x12, 0x34, 0x56, 0x78])
   \<and> (socket_ok net \<and> 0 \<le> ms \<and> ms < 2 ^ 64 \<and> sendto_ok net \<longrightarrow>
         bedrock_sent py net host port ms guid
           = [([0x01] @ be64 (word_of_int ms) @ magic @ be64 guid, host, port)])"
proof -
  have len: "length ([0x01] @ be64 (word_of_int ms) @ magic @ be64 guid) = 33"
    by (simp add: be64_def magic_def)
  have mg: "take 16 (drop 9 ([0x01] @ be64 (word_of_int ms) @ magic @ be64 guid))
      = [0x00, 0xFF, 0xFF, 0x00, 0xFE, 0xFE, 0xFE, 0xFE, 0xFD, 0xFD, 0xFD, 0xFD, 0x12, 0x34, 0x56, 0x78]"
    by (simp add: be64_def magic_def)
  show ?thesis
    using len mg
    by (auto simp add: bedrock_sent_def bedrock_body_def ping_payload_eq split: option.splits)
qed

text \<open>The datagram sent at the time 258 ms with the client identifier 7.\<close>

theorem ping_datagram_layout_witness:
  "bedrock_sent ascii_python
      \<lparr>socket_ok = True, sendto_ok = True, recvfrom = None, close_ok = True\<rparr>
      (lit ''127.0.0.1'') 19132 258 7
    = [([0x01, 0, 0, 0, 0, 0, 0, 0x01, 0x02,
         0x00, 0xFF, 0xFF, 0x00, 0xFE, 0xFE, 0xFE, 0xFE, 0xFD, 0xFD, 0xFD, 0xFD, 0x12, 0x34, 0x56, 0x78,
         0, 0, 0, 0, 0, 0, 0, 0x07], lit ''127.0.0.1'', 19132)]"
proof -
  have a: "be64 258 = [0, 0, 0, 0, 0, 0, 0x01, 0x02]" by code_simp
  have b: "be64 7 = [0, 0, 0, 0, 0, 0, 0, 0x07]" by code_simp
  have "bedrock_sent ascii_python
      \<lparr>socket_ok = True, sendto_ok = True, recvfrom = None, close_ok = True\<rparr>
      (lit ''127.0.0.1'') 19132 258 7
    = [([0x01] @ be64 (word_of_int 258) @ magic @ be64 7, lit ''127.0.0.1'', 19132)]"
    using ping_datagram_layout [of ascii_python
        "\<lparr>socket_ok = True, sendto_ok = True, recvfrom = None, close_ok = True\<rparr>"
        "lit ''127.0.0.1''" 19132 258 7, THEN conjunct2, THEN conjunct2]
    by simp
  then show ?thesis
    by (simp only: a b magic_def word_of_int_numeral append_Cons append_Nil)
qed

text \<open>
  C6. When the probe receives a datagram whose first byte is 0x1C and in which the magic
  constant does not occur as a contiguous run of bytes, its result is
  \<^verbatim>\<open>{"online": True}\<close>: online, and every other field absent.
\<close>

theorem magic_absent_online_only:
  assumes "socket_ok net" "0 \<le> ms" "ms < 2 ^ 64" "sendto_ok net" "recvfrom net = Some data"
    "close_ok net"
    and "data \<noteq> []" "hd data = 0x1C" "\<not> (\<exists>pre post. data = pre @ magic @ post)"
  shows "bedrock_status py net host port ms guid
    = \<lparr>online = True, motd = None, version = None, players = None,
       player_count = None, max_players = None\<rparr>"
proof -
  have "find_bytes data magic = - 1"
    using assms(9) by (simp add: find_bytes_def find_from_absent)
  then have "read_pong py data = Inr answered"
    using assms(7,8) by (simp add: read_pong_def)
  then show ?thesis
    using bedrock_body_received [OF assms(1-6), of py host port guid]
    by (simp add: bedrock_status_def answered_def)
qed

text \<open>A pong whose magic constant has a wrong last byte.\<close>

theorem magic_absent_online_only_witness:
  "bedrock_status ascii_python
      \<lparr>socket_ok = True, sendto_ok = True,
       recvfrom = Some [0x1C, 0x00, 0xFF, 0xFF, 0x00, 0xFE, 0xFE, 0xFE, 0xFE, 0xFD, 0xFD, 0xFD,
                        0xFD, 0x12, 0x34, 0x56, 0x79, 0x4D, 0x3B, 0x41],
       close_ok = True\<rparr>
      (lit ''127.0.0.1'') 19132 258 7
    = \<lparr>online = True, motd = None, version = None, players = None,
       player_count = None, max_players = None\<rparr>"
proof -
  let ?d = "[0x1C, 0x00, 0xFF, 0xFF, 0x00, 0xFE, 0xFE, 0xFE, 0xFE, 0xFD, 0xFD, 0xFD,
             0xFD, 0x12, 0x34, 0x56, 0x79, 0x4D, 0x3B, 0x41] :: bytes"
  have f: "find_from 0 ?d magic = - 1" by code_simp
  have n: "\<not> (\<exists>pre post. ?d = pre @ magic @ post)"
    using f find_from_absent [of 0 ?d magic] by blast
  show ?thesis
    using n magic_absent_online_only [where net = "\<lparr>socket_ok = True, sendto_ok = True,
        recvfrom = Some ?d, close_ok = True\<rparr>" and ms = 258 and data = ?d
        and py = ascii_python and host = "lit ''127.0.0.1''" and port = 19132 and guid = 7]
    by simp
qed

lemma bedrock_body_cases:
  "(\<exists>e. snd (bedrock_body py net host port ms guid) = Inl e)
   \<or> (\<exists>d. recvfrom net = Some d \<and> snd (bedrock_body py net host port ms guid) = read_pong py d)"
proof (cases "socket_ok net \<and> 0 \<le> ms \<and> ms < 2 ^ 64 \<and> sendto_ok net \<and> close_ok net")
  case True
  show ?thesis
  proof (cases "recvfrom net")
    case None
    then show ?thesis using True by (simp add: bedrock_body_def ping_payload_eq)
  next
    case (Some d)
    then show ?thesis using True by (simp add: bedrock_body_def ping_payload_eq)
  qed
next
  case False
  then have "\<exists>e. snd (bedrock_body py net host port ms guid) = Inl e"
    by (cases "recvfrom net") (auto simp add: bedrock_body_def ping_payload_eq)
  then show ?thesis ..
qed

text \<open>
  C7. The probe returns a result on every input and in every state of the network. The
  result is \<^verbatim>\<open>{"online": False}\<close> whenever the body raises, in particular when the socket
  cannot be made, when sending fails, when receiving fails or times out, and also when the
  reply is empty or its first byte is not 0x1C. Whenever the result is not online, every
  other field is absent.
\<close>

theorem bedrock_status_total:
  "(let r = bedrock_status py net host port ms guid in
      (\<not> online r \<longrightarrow> motd r = None \<and> version r = None \<and> players r = None
          \<and> player_count r = None \<and> max_players r = None)
    \<and> (\<forall>e. snd (bedrock_body py net host port ms guid) = Inl e \<longrightarrow> r = offline)
    \<and> (\<not> socket_ok net \<longrightarrow> r = offline)
    \<and> (\<not> sendto_ok net \<longrightarrow> r = offline)
    \<and> (recvfrom net = None \<longrightarrow> r = offline)
    \<and> (recvfrom net = Some [] \<longrightarrow> r = offline)
    \<and> (\<forall>d. recvfrom net = Some d \<and> hd d \<noteq> 0x1C \<longrightarrow> r = offline))"
proof -
  let ?b = "snd (bedrock_body py net host port ms guid)"
  let ?r = "bedrock_status py net host port ms guid"
  have exc: "?r = offline" if "?b = Inl e" for e
    using that by (simp add: bedrock_status_def)
  have val: "?r = offline \<or> online ?r"
  proof (cases ?b)
    case (Inl e)
    then show ?thesis using exc by simp
  next
    case (Inr r)
    then have r: "?r = r" by (simp add: bedrock_status_def)
    obtain d where "read_pong py d = Inr r"
      using Inr bedrock_body_cases [of py net host port ms guid] by auto
    then have "r = offline \<or> online r" by (rule read_pong_online)
    then show ?thesis using r by simp
  qed
  have 1: "\<not> online ?r \<longrightarrow> motd ?r = None \<and> version ?r = None \<and> players ?r = None
          \<and> player_count ?r = None \<and> max_players ?r = None"
  proof
    assume "\<not> online ?r"
    then have "?r = offline" using val by blast
    then show "motd ?r = None \<and> version ?r = None \<and> players ?r = None
          \<and> player_count ?r = None \<and> max_players ?r = None"
      by (simp add: offline_def)
  qed
  have 2: "\<forall>e. ?b = Inl e \<longrightarrow> ?r = offline"
    using exc by blast
  have 3: "\<not> socket_ok net \<longrightarrow> ?r = offline"
    by (simp add: bedrock_status_def bedrock_body_def)
  have 4: "\<not> sendto_ok net \<longrightarrow> ?r = offline"
    by (simp add: bedrock_status_def bedrock_body_def ping_payload_eq)
  have 5: "recvfrom net = None \<longrightarrow> ?r = offline"
    by (simp add: bedrock_status_def bedrock_body_def ping_payload_eq)
  have 6: "recvfrom net = Some [] \<longrightarrow> ?r = offline"
    by (simp add: bedrock_status_def bedrock_body_def ping_payload_eq read_pong_def)
  have 7: "\<forall>d. recvfrom net = Some d \<and> hd d \<noteq> 0x1C \<longrightarrow> ?r = offline"
    by (simp add: bedrock_status_def bedrock_body_def ping_payload_eq read_pong_def)
  show ?thesis
    unfolding Let_def by (intro conjI; fact)
qed

text \<open>A probe that times out, and one whose reply starts with another byte.\<close>

theorem bedrock_status_total_witness:
  "bedrock_status ascii_python
      \<lparr>socket_ok = True, sendto_ok = True, recvfrom = None, close_ok = True\<rparr>
      (lit ''127.0.0.1'') 19132 258 7 = offline
   \<and> bedrock_status ascii_python
      \<lparr>socket_ok = True, sendto_ok = True, recvfrom = Some [0xFE, 0x1C], close_ok = True\<rparr>
      (lit ''127.0.0.1'') 19132 258 7 = offline
   \<and> motd offline = None"
proof -
  note t = bedrock_status_total [unfolded Let_def]
  have "bedrock_status ascii_python
      \<lparr>socket_ok = True, sendto_ok = True, recvfrom = None, close_ok = True\<rparr>
      (lit ''127.0.0.1'') 19132 258 7 = offline"
    using t [of ascii_python
      "\<lparr>socket_ok = True, sendto_ok = True, recvfrom = None, close_ok = True\<rparr>"
      "lit ''127.0.0.1''" 19132 258 7, THEN conjunct2, THEN conjunct2, THEN conjunct2,
      THEN conjunct2, THEN conjunct1]
    by simp
  moreover have "bedrock_status ascii_python
      \<lparr>socket_ok = True, sendto_ok = True, recvfrom = Some [0xFE, 0x1C], close_ok = True\<rparr>
      (lit ''127.0.0.1'') 19132 258 7 = offline"
    using t [of ascii_python
      "\<lparr>socket_ok = True, sendto_ok = True, recvfrom = Some [0xFE, 0x1C], close_ok = True\<rparr>"
      "lit ''127.0.0.1''" 19132 258 7, THEN conjunct2, THEN conjunct2, THEN conjunct2,
      THEN conjunct2, THEN conjunct2, THEN conjunct2]
    by simp
  moreover have "motd offline = None" by (simp add: offline_def)
  ultimately show ?thesis by (intro conjI)
qed

text \<open>The definitions that evaluate the library functions on a literal.\<close>

lemmas py_eval = pong_fields_def spec_pong_fields_def find_bytes_def magic_def decode_utf8_def
  lead_def retry_def is_cont_def cont_bits_def on_error_def strip_chars_def rstrip_chars_def
  split_on_def

lemma read_pong_found:
  assumes "data \<noteq> []" "hd data = 0x1C" "find_bytes data magic \<noteq> - 1"
    and "read_pong py data = Inr r"
  shows "online r
     \<and> motd r = Some (if 1 < length (pong_fields data) then pong_fields data ! 1
                      else lit ''Minecraft Bedrock'')
     \<and> version r = Some (if 3 < length (pong_fields data) then pong_fields data ! 3
                         else lit ''Bedrock'')"
proof -
  let ?P = "pong_fields data"
  let ?A = "if 4 < length ?P \<and> isdigit py (?P ! 4) then py_int py (?P ! 4) else Inr 0"
  let ?B = "if 5 < length ?P \<and> isdigit py (?P ! 5) then py_int py (?P ! 5) else Inr 0"
  have "bnd ?A (\<lambda>onl. bnd ?B (\<lambda>maxp.
         Inr \<lparr>online = True,
              motd = Some (if 1 < length ?P then ?P ! 1 else lit ''Minecraft Bedrock''),
              version = Some (if 3 < length ?P then ?P ! 3 else lit ''Bedrock''),
              players = Some [],
              player_count = Some onl,
              max_players = Some maxp\<rparr>)) = Inr r"
    using assms by (simp add: read_pong_def Let_def)
  then obtain onl maxp where
    "Inr \<lparr>online = True,
              motd = Some (if 1 < length ?P then ?P ! 1 else lit ''Minecraft Bedrock''),
              version = Some (if 3 < length ?P then ?P ! 3 else lit ''Bedrock''),
              players = Some [],
              player_count = Some onl,
              max_players = Some maxp\<rparr> = (Inr r :: py_exc + ping_result)"
    unfolding bnd_Inr_iff by blast
  then have "r = \<lparr>online = True,
              motd = Some (if 1 < length ?P then ?P ! 1 else lit ''Minecraft Bedrock''),
              version = Some (if 3 < length ?P then ?P ! 3 else lit ''Bedrock''),
              players = Some [],
              player_count = Some onl,
              max_players = Some maxp\<rparr>"
    by simp
  then show ?thesis by simp
qed

text \<open>
  C2 as stated fails. The bytes after the magic constant are decoded with the error
  handler \<^verbatim>\<open>ignore\<close>, not \<^verbatim>\<open>replace\<close>: for the payload \<^verbatim>\<open>M;\xffA\<close> the field list of the
  source is \<open>M\<close>, \<open>A\<close>, where replacing gives \<open>M\<close>, \<open>\ufffdA\<close>. And NUL characters are
  stripped at both ends, not only at the end: for the payload \<^verbatim>\<open>\x00M;A\<close> the first field
  is \<open>M\<close>.
\<close>

theorem pong_fields_spec_counterexample:
  "pong_fields ([0x1C] @ magic @ [0x4D, 0x3B, 0xFF, 0x41])
     \<noteq> spec_pong_fields ([0x1C] @ magic @ [0x4D, 0x3B, 0xFF, 0x41])
   \<and> pong_fields ([0x1C] @ magic @ [0x4D, 0x3B, 0xFF, 0x41]) = [[0x4D], [0x41]]
   \<and> spec_pong_fields ([0x1C] @ magic @ [0x4D, 0x3B, 0xFF, 0x41]) = [[0x4D], [0xFFFD, 0x41]]
   \<and> pong_fields ([0x1C] @ magic @ [0x00, 0x4D, 0x3B, 0x41]) = [[0x4D], [0x41]]
   \<and> spec_pong_fields ([0x1C] @ magic @ [0x00, 0x4D, 0x3B, 0x41]) = [[0x00, 0x4D], [0x41]]"
proof -
  have 1: "pong_fields ([0x1C] @ magic @ [0x4D, 0x3B, 0xFF, 0x41]) = [[0x4D], [0x41]]"
    by (simp add: py_eval)
  have 2: "spec_pong_fields ([0x1C] @ magic @ [0x4D, 0x3B, 0xFF, 0x41]) = [[0x4D], [0xFFFD, 0x41]]"
    by (simp add: py_eval)
  have 3: "pong_fields ([0x1C] @ magic @ [0x00, 0x4D, 0x3B, 0x41]) = [[0x4D], [0x41]]"
    by (simp add: py_eval)
  have 4: "spec_pong_fields ([0x1C] @ magic @ [0x00, 0x4D, 0x3B, 0x41]) = [[0x00, 0x4D], [0x41]]"
    by (simp add: py_eval)
  have 0: "pong_fields ([0x1C] @ magic @ [0x4D, 0x3B, 0xFF, 0x41])
     \<noteq> spec_pong_fields ([0x1C] @ magic @ [0x4D, 0x3B, 0xFF, 0x41])"
    unfolding 1 2 by simp
  show ?thesis by (intro conjI; fact)
qed

text \<open>
  C2, amended. For every datagram in which the magic constant occurs, with \<open>post\<close> the
  bytes after its first occurrence: the field list is \<open>post\<close> decoded as UTF-8 with invalid
  byte sequences dropped (decoding never fails), then stripped of NUL characters at both
  ends, then split on \<open>;\<close>, in order. When the first byte is 0x1C and the probe returns a
  result for the datagram, the result is online and its motd and version are the fields 1
  and 3 of that list (a fixed text when the list is too short).
\<close>

theorem pong_fields_after_magic:
  assumes "data = pre @ magic @ post"
    and "\<forall>pre' post'. data = pre' @ magic @ post' \<longrightarrow> length pre \<le> length pre'"
  shows "(let fields = split_on 0x3B (strip_chars [0] (decode_utf8 Ignore post)) in
          pong_fields data = fields
        \<and> (\<forall>r. hd data = 0x1C \<and> read_pong py data = Inr r \<longrightarrow>
              online r
            \<and> motd r = Some (if 1 < length fields then fields ! 1 else lit ''Minecraft Bedrock'')
            \<and> version r = Some (if 3 < length fields then fields ! 3 else lit ''Bedrock'')))"
proof -
  let ?F = "split_on 0x3B (strip_chars [0] (decode_utf8 Ignore post))"
  have idx: "find_bytes data magic = int (length pre)"
    using find_from_first [OF assms, of 0] by (simp add: find_bytes_def)
  then have "drop (nat (find_bytes data magic + int (length magic))) data = post"
    using assms(1) by (simp add: nat_add_distrib)
  then have f: "pong_fields data = ?F" by (simp add: pong_fields_def)
  have ne: "data \<noteq> []" using assms(1) by (simp add: magic_def)
  have found: "find_bytes data magic \<noteq> - 1" using idx by simp
  have res: "online r
       \<and> motd r = Some (if 1 < length ?F then ?F ! 1 else lit ''Minecraft Bedrock'')
       \<and> version r = Some (if 3 < length ?F then ?F ! 3 else lit ''Bedrock'')"
    if "hd data = 0x1C" and "read_pong py data = Inr r" for r
    using read_pong_found [OF ne that(1) found that(2)] unfolding f .
  show ?thesis unfolding Let_def using f res by blast
qed

text \<open>A pong with two bytes before the magic constant and NUL characters at both ends.\<close>

theorem pong_fields_after_magic_witness:
  "pong_fields ([0x1C, 0x01] @ magic @ [0x00, 0x4D, 0x3B, 0xFF, 0x41, 0x00]) = [[0x4D], [0x41]]"
proof -
  let ?d = "[0x1C, 0x01] @ magic @ [0x00, 0x4D, 0x3B, 0xFF, 0x41, 0x00] :: bytes"
  have first: "\<forall>pre' post'. ?d = pre' @ magic @ post' \<longrightarrow> length [0x1C :: byte, 0x01] \<le> length pre'"
  proof (intro allI impI)
    fix pre' post'
    assume e: "?d = pre' @ magic @ post'"
    show "length [0x1C :: byte, 0x01] \<le> length pre'"
    proof (rule ccontr)
      assume "\<not> length [0x1C :: byte, 0x01] \<le> length pre'"
      then have "length pre' < 2" by simp
      then consider "pre' = []" | x where "pre' = [x]"
        by (cases pre') (auto simp add: less_Suc_eq length_Suc_conv)
      then show False
      proof cases
        case 1
        then show ?thesis using e by (simp add: magic_def)
      next
        case 2
        then show ?thesis using e by (simp add: magic_def)
      qed
    qed
  qed
  have v: "split_on 0x3B (strip_chars [0] (decode_utf8 Ignore [0x00, 0x4D, 0x3B, 0xFF, 0x41, 0x00]))
      = [[0x4D], [0x41]]"
    by (simp add: py_eval)
  show ?thesis
    using pong_fields_after_magic [where data = ?d and pre = "[0x1C, 0x01]"
        and post = "[0x00, 0x4D, 0x3B, 0xFF, 0x41, 0x00]" and py = ascii_python,
        unfolded Let_def, THEN conjunct1] first
    by (simp only: v)
qed

section \<open>Proofs: the peer dump\<close>

lemma digits_value_nonneg:
  "0 \<le> acc \<Longrightarrow> digits_value py acc s = Inr v \<Longrightarrow> 0 \<le> v"
proof (induction s arbitrary: acc)
  case Nil
  then show ?case by simp
next
  case (Cons c cs)
  show ?case
  proof (cases "numeric py c")
    case (Decimal d)
    then have "digits_value py (acc * 10 + int d) cs = Inr v" using Cons.prems(2) by simp
    moreover have "0 \<le> acc * 10 + int d" using Cons.prems(1) by simp
    ultimately show ?thesis by (rule Cons.IH [rotated])
  next
    case NotDigit
    then show ?thesis using Cons.prems(2) by simp
  next
    case Digit
    then show ?thesis using Cons.prems(2) by simp
  qed
qed

lemma num_field_value:
  assumes "num_field py x = Inr v"
  shows "0 \<le> v \<and> (isdigit py x \<longrightarrow> py_int py x = Inr v) \<and> (\<not> isdigit py x \<longrightarrow> v = 0)"
proof (cases "isdigit py x")
  case True
  then have i: "py_int py x = Inr v" using assms by (simp add: num_field_def)
  then have "digits_value py 0 x = Inr v" by (simp add: py_int_def split: if_splits)
  then have "0 \<le> v" using digits_value_nonneg [of 0 py x v] by simp
  then show ?thesis using True i by simp
next
  case False
  then show ?thesis using assms by (simp add: num_field_def)
qed

lemma parse_peer_Inr:
  assumes "8 \<le> length p"
    and "num_field py (p ! 4) = Inr hs" "num_field py (p ! 5) = Inr rx"
    and "num_field py (p ! 6) = Inr tx" "num_field py (p ! 7) = Inr keep"
  shows "parse_peer py now p =
      Inr \<lparr>peer_key = p ! 0,
           endpoint = (if p ! 2 \<noteq> lit ''(none)'' then p ! 2 else []),
           allowed_ips = (if p ! 3 \<noteq> lit ''(none)'' then p ! 3 else []),
           latest_handshake = hs,
           handshake_age_sec = (if hs \<noteq> 0 then Some (now - hs) else None),
           transfer_rx = rx,
           transfer_tx = tx,
           persistent_keepalive = (if keep \<noteq> 0 then Some keep else None)\<rparr>"
proof -
  have "item p i = Inr (p ! i)" if "i < 8" for i
    using that assms(1) by (simp add: item_def)
  then have "item p 0 = Inr (p ! 0)" "item p 2 = Inr (p ! 2)" "item p 3 = Inr (p ! 3)"
    "item p 4 = Inr (p ! 4)" "item p 5 = Inr (p ! 5)" "item p 6 = Inr (p ! 6)"
    "item p 7 = Inr (p ! 7)"
    by simp_all
  then show ?thesis using assms(2-5) by (simp add: parse_peer_def)
qed

lemma parse_peer_short:
  assumes "length p < 8"
  shows "\<exists>e. parse_peer py now p = Inl e"
proof (cases "parse_peer py now p")
  case (Inl e)
  then show ?thesis by blast
next
  case (Inr r)
  then have "\<exists>x. item p 7 = Inr x"
    unfolding parse_peer_def bnd_Inr_iff by blast
  then show ?thesis using assms by (simp add: item_def)
qed

text \<open>The definitions that evaluate the parser on a literal dump.\<close>

lemmas dump_eval = dump_lines_def splitlines_def strip_def isspace_def line_boundary_def
  split_on_def num_field_def isdigit_def py_int_def ascii_python_def item_def

subsection \<open>The claims about the peer records\<close>

text \<open>
  C4. For every peer record with at least eight fields whose four numeric conversions
  return: the token \<^verbatim>\<open>(none)\<close> as endpoint or allowed IPs gives the absent value (the
  empty string in the source); latest handshake, received and sent bytes and keepalive are
  the integer read from the token when the token is all digits and 0 otherwise, never
  negative; a keepalive of 0 is absent (\<^verbatim>\<open>None\<close>); and the handshake age is present
  exactly when the latest handshake is above 0 and is then \<open>now\<close> minus the latest
  handshake, whatever its sign.
\<close>

theorem parse_peer_fields:
  assumes "8 \<le> length p"
    and "num_field py (p ! 4) = Inr hs" "num_field py (p ! 5) = Inr rx"
    and "num_field py (p ! 6) = Inr tx" "num_field py (p ! 7) = Inr keep"
  shows "parse_peer py now p =
      Inr \<lparr>peer_key = p ! 0,
           endpoint = (if p ! 2 = lit ''(none)'' then [] else p ! 2),
           allowed_ips = (if p ! 3 = lit ''(none)'' then [] else p ! 3),
           latest_handshake = hs,
           handshake_age_sec = (if 0 < hs then Some (now - hs) else None),
           transfer_rx = rx,
           transfer_tx = tx,
           persistent_keepalive = (if keep = 0 then None else Some keep)\<rparr>
    \<and> 0 \<le> hs \<and> 0 \<le> rx \<and> 0 \<le> tx \<and> 0 \<le> keep
    \<and> (isdigit py (p ! 4) \<longrightarrow> py_int py (p ! 4) = Inr hs) \<and> (\<not> isdigit py (p ! 4) \<longrightarrow> hs = 0)
    \<and> (isdigit py (p ! 5) \<longrightarrow> py_int py (p ! 5) = Inr rx) \<and> (\<not> isdigit py (p ! 5) \<longrightarrow> rx = 0)
    \<and> (isdigit py (p ! 6) \<longrightarrow> py_int py (p ! 6) = Inr tx) \<and> (\<not> isdigit py (p ! 6) \<longrightarrow> tx = 0)
    \<and> (isdigit py (p ! 7) \<longrightarrow> py_int py (p ! 7) = Inr keep) \<and> (\<not> isdigit py (p ! 7) \<longrightarrow> keep = 0)"
proof -
  note v = num_field_value [OF assms(2)] num_field_value [OF assms(3)]
    num_field_value [OF assms(4)] num_field_value [OF assms(5)]
  have pos: "(hs \<noteq> 0) = (0 < hs)" using v(1) by auto
  have "parse_peer py now p =
      Inr \<lparr>peer_key = p ! 0,
           endpoint = (if p ! 2 = lit ''(none)'' then [] else p ! 2),
           allowed_ips = (if p ! 3 = lit ''(none)'' then [] else p ! 3),
           latest_handshake = hs,
           handshake_age_sec = (if 0 < hs then Some (now - hs) else None),
           transfer_rx = rx,
           transfer_tx = tx,
           persistent_keepalive = (if keep = 0 then None else Some keep)\<rparr>"
    unfolding parse_peer_Inr [OF assms] pos by simp
  then show ?thesis using v by blast
qed

text \<open>
  A record whose handshake lies ten seconds after \<open>now\<close>: the age is -10. Its endpoint is
  \<^verbatim>\<open>(none)\<close>, its sent bytes are not a number, its keepalive is 0.
\<close>

theorem parse_peer_fields_witness:
  "parse_peer ascii_python 1699999990
     [lit ''peerPub'', [], lit ''(none)'', lit ''10.0.0.2/32'', lit ''1700000000'', lit ''100'',
      lit ''x'', lit ''0'']
   = Inr \<lparr>peer_key = lit ''peerPub'', endpoint = [], allowed_ips = lit ''10.0.0.2/32'',
          latest_handshake = 1700000000, handshake_age_sec = Some (- 10),
          transfer_rx = 100, transfer_tx = 0, persistent_keepalive = None\<rparr>"
proof -
  let ?p = "[lit ''peerPub'', [], lit ''(none)'', lit ''10.0.0.2/32'', lit ''1700000000'',
      lit ''100'', lit ''x'', lit ''0'']"
  have 4: "num_field ascii_python (?p ! 4) = Inr 1700000000" by (simp add: dump_eval)
  have 5: "num_field ascii_python (?p ! 5) = Inr 100" by (simp add: dump_eval)
  have 6: "num_field ascii_python (?p ! 6) = Inr 0" by (simp add: dump_eval)
  have 7: "num_field ascii_python (?p ! 7) = Inr 0" by (simp add: dump_eval)
  have 8: "8 \<le> length ?p" by simp
  show ?thesis
    using parse_peer_fields [OF 8 4 5 6 7, of 1699999990, THEN conjunct1] by simp
qed

lemma parse_peers_filter:
  assumes "\<forall>l \<in> set ls. length (split_on 0x09 l) < 8
             \<or> (\<exists>r. parse_peer py now (split_on 0x09 l) = Inr r)"
  shows "parse_peers py now ls
       = map (\<lambda>l. projr (parse_peer py now (split_on 0x09 l)))
           (filter (\<lambda>l. 8 \<le> length (split_on 0x09 l)) ls)"
  using assms
proof (induction ls)
  case Nil
  show ?case by simp
next
  case (Cons l ls)
  then have IH: "parse_peers py now ls
       = map (\<lambda>l. projr (parse_peer py now (split_on 0x09 l)))
           (filter (\<lambda>l. 8 \<le> length (split_on 0x09 l)) ls)"
    by simp
  show ?case
  proof (cases "length (split_on 0x09 l) < 8")
    case True
    then obtain e where "parse_peer py now (split_on 0x09 l) = Inl e"
      using parse_peer_short by blast
    then show ?thesis using True IH by simp
  next
    case False
    then obtain r where r: "parse_peer py now (split_on 0x09 l) = Inr r"
      using Cons.prems by auto
    then show ?thesis using False IH by simp
  qed
qed

text \<open>
  C5. In a dump whose peer lines each have too few fields (fewer than eight, so that a
  subscript raises) or are well formed (they parse), the parser returns a result, and its
  peers are exactly those of the lines with at least eight fields, in the order of the
  dump: each line with too few fields is left out by itself.
\<close>

theorem malformed_lines_skipped:
  assumes "dump_lines raw = l0 # ls"
    and "parse_iface py (split_on 0x09 l0) = Inr info"
    and "\<forall>l \<in> set ls. length (split_on 0x09 l) < 8
             \<or> (\<exists>r. parse_peer py now (split_on 0x09 l) = Inr r)"
  shows "\<exists>v. parse_dump py iface raw now = Inr v \<and> running v
       \<and> peers v = Some (map (\<lambda>l. projr (parse_peer py now (split_on 0x09 l)))
                           (filter (\<lambda>l. 8 \<le> length (split_on 0x09 l)) ls))"
proof -
  have "parse_dump py iface raw now
      = Inr \<lparr>vpn_type = lit ''wireguard'', vpn_iface = Some iface, running = True,
             interface_info = Some info, peers = Some (parse_peers py now ls)\<rparr>"
    using assms(1,2) by (simp add: parse_dump_def)
  then show ?thesis using parse_peers_filter [OF assms(3)] by simp
qed

text \<open>A line cut to two fields between two well-formed lines: the two peers, in order.\<close>

theorem malformed_lines_skipped_witness:
  "\<exists>v. parse_dump ascii_python (lit ''wg0'')
         (lit ''k'' @ [9] @ lit ''p'' @ [9] @ lit ''51820'' @ [9] @ lit ''0'' @ [10]
          @ lit ''A'' @ [9, 9] @ lit ''(none)'' @ [9] @ lit ''(none)'' @ [9] @ lit ''0'' @ [9]
          @ lit ''1'' @ [9] @ lit ''2'' @ [9] @ lit ''0'' @ [10]
          @ lit ''B'' @ [9] @ lit ''x'' @ [10]
          @ lit ''C'' @ [9, 9] @ lit ''(none)'' @ [9] @ lit ''(none)'' @ [9] @ lit ''0'' @ [9]
          @ lit ''3'' @ [9] @ lit ''4'' @ [9] @ lit ''0'') 1000 = Inr v
      \<and> running v
      \<and> peers v = Some
          [\<lparr>peer_key = lit ''A'', endpoint = [], allowed_ips = [], latest_handshake = 0,
            handshake_age_sec = None, transfer_rx = 1, transfer_tx = 2,
            persistent_keepalive = None\<rparr>,
           \<lparr>peer_key = lit ''C'', endpoint = [], allowed_ips = [], latest_handshake = 0,
            handshake_age_sec = None, transfer_rx = 3, transfer_tx = 4,
            persistent_keepalive = None\<rparr>]"
proof -
  let ?l0 = "lit ''k'' @ [9] @ lit ''p'' @ [9] @ lit ''51820'' @ [9] @ lit ''0''"
  let ?lA = "lit ''A'' @ [9, 9] @ lit ''(none)'' @ [9] @ lit ''(none)'' @ [9] @ lit ''0'' @ [9]
          @ lit ''1'' @ [9] @ lit ''2'' @ [9] @ lit ''0''"
  let ?lB = "lit ''B'' @ [9] @ lit ''x''"
  let ?lC = "lit ''C'' @ [9, 9] @ lit ''(none)'' @ [9] @ lit ''(none)'' @ [9] @ lit ''0'' @ [9]
          @ lit ''3'' @ [9] @ lit ''4'' @ [9] @ lit ''0''"
  let ?raw = "?l0 @ [10] @ ?lA @ [10] @ ?lB @ [10] @ ?lC"
  let ?pA = "\<lparr>peer_key = lit ''A'', endpoint = [], allowed_ips = [], latest_handshake = 0,
            handshake_age_sec = None, transfer_rx = 1, transfer_tx = 2,
            persistent_keepalive = None\<rparr>"
  let ?pC = "\<lparr>peer_key = lit ''C'', endpoint = [], allowed_ips = [], latest_handshake = 0,
            handshake_age_sec = None, transfer_rx = 3, transfer_tx = 4,
            persistent_keepalive = None\<rparr>"
  have dl: "dump_lines ?raw = ?l0 # [?lA, ?lB, ?lC]" by (simp add: dump_eval)
  have i: "parse_iface ascii_python (split_on 0x09 ?l0)
      = Inr \<lparr>public_key = lit ''p'', listen_port = Some 51820\<rparr>"
    by (simp add: parse_iface_def dump_eval)
  have a: "parse_peer ascii_python 1000 (split_on 0x09 ?lA) = Inr ?pA"
    by (simp add: parse_peer_def dump_eval)
  have b: "length (split_on 0x09 ?lB) < 8" by (simp add: dump_eval)
  have c: "parse_peer ascii_python 1000 (split_on 0x09 ?lC) = Inr ?pC"
    by (simp add: parse_peer_def dump_eval)
  have h: "\<forall>l \<in> set [?lA, ?lB, ?lC]. length (split_on 0x09 l) < 8
             \<or> (\<exists>r. parse_peer ascii_python 1000 (split_on 0x09 l) = Inr r)"
    using a b c by (simp only: list.set ball_simps insert_iff) blast
  have m: "map (\<lambda>l. projr (parse_peer ascii_python 1000 (split_on 0x09 l)))
           (filter (\<lambda>l. 8 \<le> length (split_on 0x09 l)) [?lA, ?lB, ?lC]) = [?pA, ?pC]"
    by (simp add: parse_peer_def dump_eval)
  show ?thesis
    using malformed_lines_skipped [OF dl i h, of "lit ''wg0''"] by (simp only: m append_assoc)
qed

subsection \<open>The private key\<close>

lemma splitlines_from_cur:
  "rest \<noteq> [] \<Longrightarrow>
     splitlines_from cur rest
       = (cur @ hd (splitlines_from [] rest)) # tl (splitlines_from [] rest)"
proof (induction rest arbitrary: cur)
  case Nil
  then show ?case by simp
next
  case (Cons c rest)
  show ?case
  proof (cases "rest = []")
    case True
    then show ?thesis by simp
  next
    case ne: False
    then obtain d cs where rest: "rest = d # cs" by (cases rest) auto
    show ?thesis
    proof (cases "(c = 0x0D \<and> d = 0x0A) \<or> line_boundary c")
      case True
      then show ?thesis unfolding rest by auto
    next
      case False
      then have nb: "\<not> line_boundary c" and nc: "\<not> (c = 0x0D \<and> d = 0x0A)" by simp_all
      have a: "splitlines_from cur (c # d # cs) = splitlines_from (cur @ [c]) (d # cs)"
        by (simp add: nb nc)
      have b: "splitlines_from [] (c # d # cs) = splitlines_from [c] (d # cs)"
        by (simp add: nb nc)
      have i1: "splitlines_from (cur @ [c]) rest
          = ((cur @ [c]) @ hd (splitlines_from [] rest)) # tl (splitlines_from [] rest)"
        using ne by (rule Cons.IH)
      have i2: "splitlines_from [c] rest
          = ([c] @ hd (splitlines_from [] rest)) # tl (splitlines_from [] rest)"
        using ne by (rule Cons.IH)
      have "splitlines_from cur (c # rest) = splitlines_from (cur @ [c]) rest"
        using a by (simp only: rest)
      moreover have "splitlines_from [] (c # rest) = splitlines_from [c] rest"
        using b by (simp only: rest)
      ultimately show ?thesis by (simp only: i1 i2 list.sel append_assoc)
    qed
  qed
qed

lemma split_from_prefix:
  assumes "sep \<notin> set k"
  shows "split_from sep cur (k @ s) = split_from sep (cur @ k) s"
  using assms by (induction k arbitrary: cur) simp_all

lemma split_from_cur:
  "split_from sep cur s
     = (cur @ hd (split_from sep [] s)) # tl (split_from sep [] s)"
proof (induction s arbitrary: cur)
  case Nil
  show ?case by simp
next
  case (Cons c s)
  show ?case
  proof (cases "c = sep")
    case True
    then show ?thesis by simp
  next
    case False
    then show ?thesis using Cons [of "cur @ [c]"] Cons [of "[c]"] by simp
  qed
qed

lemma parse_iface_field0: "parse_iface py (x # fs) = parse_iface py (y # fs)"
proof -
  have "(x # fs) ! 2 = (y # fs) ! 2" "(x # fs) ! 1 = (y # fs) ! 1"
    by (simp_all add: numeral_2_eq_2)
  then show ?thesis by (simp add: parse_iface_def)
qed

lemma strip_nonblank: "strip s \<noteq> [] \<longleftrightarrow> (\<exists>c \<in> set s. \<not> isspace c)"
proof
  assume ne: "strip s \<noteq> []"
  have "dropWhile isspace s \<noteq> []"
  proof
    assume e: "dropWhile isspace s = []"
    have "strip s = []" unfolding strip_def e by simp
    then show False using ne by simp
  qed
  then show "\<exists>c \<in> set s. \<not> isspace c"
    using dropWhile_eq_Nil_conv [of isspace s] by blast
next
  assume "\<exists>c \<in> set s. \<not> isspace c"
  then have ne: "dropWhile isspace s \<noteq> []" by (simp add: dropWhile_eq_Nil_conv)
  then have "\<not> isspace (hd (dropWhile isspace s))" by (rule hd_dropWhile)
  moreover have "hd (dropWhile isspace s) \<in> set (rev (dropWhile isspace s))" using ne by simp
  ultimately have "dropWhile isspace (rev (dropWhile isspace s)) \<noteq> []"
    by (auto simp add: dropWhile_eq_Nil_conv)
  then show "strip s \<noteq> []" by (simp add: strip_def)
qed

lemma dump_lines_key:
  "\<exists>l0 ms. \<forall>k. (\<forall>c \<in> set k. \<not> line_boundary c) \<and> (\<exists>c \<in> set k. \<not> isspace c)
       \<longrightarrow> dump_lines (k @ rest) = (k @ l0) # ms"
proof (cases "rest = []")
  case True
  have "dump_lines (k @ rest) = (k @ []) # []"
    if "\<forall>c \<in> set k. \<not> line_boundary c" and "\<exists>c \<in> set k. \<not> isspace c" for k
  proof -
    have "k \<noteq> []" using that(2) by auto
    then have "splitlines (k @ rest) = [k]"
      using splitlines_from_prefix [OF that(1), of "[]" "[]"] True by (simp add: splitlines_def)
    then show ?thesis using that(2) by (simp add: dump_lines_def strip_nonblank)
  qed
  then show ?thesis by blast
next
  case False
  let ?L = "splitlines_from [] rest"
  have "dump_lines (k @ rest) = (k @ hd ?L) # filter (\<lambda>l. strip l \<noteq> []) (tl ?L)"
    if "\<forall>c \<in> set k. \<not> line_boundary c" and "\<exists>c \<in> set k. \<not> isspace c" for k
  proof -
    have "splitlines (k @ rest) = (k @ hd ?L) # tl ?L"
      using splitlines_from_prefix [OF that(1), of "[]" rest] splitlines_from_cur [OF False, of k]
      by (simp add: splitlines_def)
    moreover have "strip (k @ hd ?L) \<noteq> []" using that(2) by (auto simp add: strip_nonblank)
    ultimately show ?thesis by (simp add: dump_lines_def)
  qed
  then show ?thesis by blast
qed

lemma split_on_key:
  assumes "0x09 \<notin> set k"
  shows "split_on 0x09 (k @ l)
       = (k @ hd (split_from 0x09 [] l)) # tl (split_from 0x09 [] l)"
  using split_from_prefix [OF assms, of "[]" l] split_from_cur [of "0x09" k l]
  by (simp add: split_on_def)

lemma parse_dump_key:
  assumes "\<forall>c \<in> set k1. c \<noteq> 0x09 \<and> \<not> line_boundary c" "\<exists>c \<in> set k1. \<not> isspace c"
    and "\<forall>c \<in> set k2. c \<noteq> 0x09 \<and> \<not> line_boundary c" "\<exists>c \<in> set k2. \<not> isspace c"
  shows "parse_dump py iface (k1 @ rest) now = parse_dump py iface (k2 @ rest) now"
proof -
  obtain l0 ms where L: "\<And>k. (\<forall>c \<in> set k. \<not> line_boundary c) \<Longrightarrow> (\<exists>c \<in> set k. \<not> isspace c)
       \<Longrightarrow> dump_lines (k @ rest) = (k @ l0) # ms"
    using dump_lines_key [of rest] by blast
  have d1: "dump_lines (k1 @ rest) = (k1 @ l0) # ms" using assms(1,2) by (intro L) auto
  have d2: "dump_lines (k2 @ rest) = (k2 @ l0) # ms" using assms(3,4) by (intro L) auto
  have t1: "0x09 \<notin> set k1" and t2: "0x09 \<notin> set k2" using assms(1,3) by auto
  have "parse_iface py (split_on 0x09 (k1 @ l0)) = parse_iface py (split_on 0x09 (k2 @ l0))"
    unfolding split_on_key [OF t1] split_on_key [OF t2] by (rule parse_iface_field0)
  then show ?thesis by (simp add: parse_dump_def d1 d2)
qed

lemma set_strip: "set (strip k) \<subseteq> set k"
proof
  fix c
  assume "c \<in> set (strip k)"
  then have "c \<in> set (dropWhile isspace (rev (dropWhile isspace k)))"
    by (simp only: strip_def set_rev)
  then have "c \<in> set (rev (dropWhile isspace k))" by (rule set_dropWhileD)
  then have "c \<in> set (dropWhile isspace k)" by (simp only: set_rev)
  then show "c \<in> set k" by (rule set_dropWhileD)
qed

lemma strip_key_blank:
  assumes "x \<in> set k" "\<not> isspace x" and "\<forall>c \<in> set rest. isspace c"
  shows "strip (k @ rest) = strip k"
proof -
  have a: "dropWhile isspace (k @ rest) = dropWhile isspace k @ rest"
    using assms(1,2) by (rule dropWhile_append1)
  have b: "dropWhile isspace (rev rest @ rev (dropWhile isspace k))
      = dropWhile isspace (rev (dropWhile isspace k))"
  proof (rule dropWhile_append2)
    fix c
    assume "c \<in> set (rev rest)"
    then show "isspace c" using assms(3) by (simp only: set_rev)
  qed
  have "strip (k @ rest) = rev (dropWhile isspace (rev (dropWhile isspace k @ rest)))"
    by (simp only: strip_def a)
  also have "\<dots> = rev (dropWhile isspace (rev rest @ rev (dropWhile isspace k)))"
    by (simp only: rev_append)
  also have "\<dots> = strip k"
    by (simp only: b strip_def)
  finally show ?thesis .
qed

lemma strip_key_text:
  assumes "x \<in> set k" "\<not> isspace x" and "y \<in> set rest" "\<not> isspace y"
  shows "strip (k @ rest) = dropWhile isspace k @ rev (dropWhile isspace (rev rest))"
proof -
  have a: "dropWhile isspace (k @ rest) = dropWhile isspace k @ rest"
    using assms(1,2) by (rule dropWhile_append1)
  have "y \<in> set (rev rest)" using assms(3) by (simp only: set_rev)
  then have b: "dropWhile isspace (rev rest @ rev (dropWhile isspace k))
      = dropWhile isspace (rev rest) @ rev (dropWhile isspace k)"
    using assms(4) by (rule dropWhile_append1)
  have "strip (k @ rest) = rev (dropWhile isspace (rev (dropWhile isspace k @ rest)))"
    by (simp only: strip_def a)
  also have "\<dots> = rev (dropWhile isspace (rev rest @ rev (dropWhile isspace k)))"
    by (simp only: rev_append)
  also have "\<dots> = dropWhile isspace k @ rev (dropWhile isspace (rev rest))"
    by (simp only: b rev_append rev_rev_ident)
  finally show ?thesis .
qed

lemma strip_key:
  "\<exists>r. \<forall>k. (\<exists>c \<in> set k. \<not> isspace c) \<longrightarrow>
        (\<exists>k'. strip (k @ rest) = k' @ r \<and> set k' \<subseteq> set k \<and> (\<exists>c \<in> set k'. \<not> isspace c))"
proof (cases "\<forall>c \<in> set rest. isspace c")
  case True
  have "\<exists>k'. strip (k @ rest) = k' @ [] \<and> set k' \<subseteq> set k \<and> (\<exists>c \<in> set k'. \<not> isspace c)"
    if nb: "\<exists>c \<in> set k. \<not> isspace c" for k
  proof -
    obtain x where x: "x \<in> set k" "\<not> isspace x" using nb by blast
    have "strip (k @ rest) = strip k @ []"
      using strip_key_blank [OF x True] by simp
    moreover have "set (strip k) \<subseteq> set k" by (rule set_strip)
    moreover have "\<exists>c \<in> set (strip k). \<not> isspace c"
    proof -
      let ?t = "dropWhile isspace (rev (dropWhile isspace k))"
      have "strip k \<noteq> []" using nb strip_nonblank [of k] by blast
      then have t: "?t \<noteq> []" by (simp only: strip_def rev_is_Nil_conv not_False_eq_True)
      then have "\<not> isspace (hd ?t)" by (rule hd_dropWhile)
      moreover have "hd ?t \<in> set ?t" using t by (rule hd_in_set)
      then have "hd ?t \<in> set (strip k)" by (simp only: strip_def set_rev)
      ultimately show ?thesis by blast
    qed
    ultimately show ?thesis by blast
  qed
  then show ?thesis by blast
next
  case False
  then obtain y where y: "y \<in> set rest" "\<not> isspace y" by blast
  let ?r = "rev (dropWhile isspace (rev rest))"
  have "\<exists>k'. strip (k @ rest) = k' @ ?r \<and> set k' \<subseteq> set k \<and> (\<exists>c \<in> set k'. \<not> isspace c)"
    if nb: "\<exists>c \<in> set k. \<not> isspace c" for k
  proof -
    obtain x where x: "x \<in> set k" "\<not> isspace x" using nb by blast
    have "strip (k @ rest) = dropWhile isspace k @ ?r"
      using x y by (rule strip_key_text)
    moreover have "set (dropWhile isspace k) \<subseteq> set k"
      using set_dropWhileD [of _ isspace k] by blast
    moreover have "\<exists>c \<in> set (dropWhile isspace k). \<not> isspace c"
    proof -
      have ne: "dropWhile isspace k \<noteq> []"
        using nb dropWhile_eq_Nil_conv [of isspace k] by blast
      then have "\<not> isspace (hd (dropWhile isspace k))" by (rule hd_dropWhile)
      moreover have "hd (dropWhile isspace k) \<in> set (dropWhile isspace k)"
        using ne by (rule hd_in_set)
      ultimately show ?thesis by blast
    qed
    ultimately show ?thesis by blast
  qed
  then show ?thesis by blast
qed

lemma parse_iface_Inr:
  assumes "parse_iface py parts = Inr i"
  shows "public_key i = (if 1 < length parts then parts ! 1 else [])
     \<and> listen_port i = (if 2 < length parts \<and> isdigit py (parts ! 2)
                         then Some (projr (py_int py (parts ! 2))) else None)"
proof (cases "2 < length parts \<and> isdigit py (parts ! 2)")
  case True
  then have "bnd (bnd (py_int py (parts ! 2)) (\<lambda>v. Inr (Some v)))
       (\<lambda>port. Inr \<lparr>public_key = (if 1 < length parts then parts ! 1 else []),
                     listen_port = port\<rparr>) = Inr i"
    using assms by (simp add: parse_iface_def)
  then obtain v where "py_int py (parts ! 2) = Inr v"
    and "i = \<lparr>public_key = (if 1 < length parts then parts ! 1 else []), listen_port = Some v\<rparr>"
    unfolding bnd_Inr_iff by auto
  then show ?thesis using True by simp
next
  case False
  then have "i = \<lparr>public_key = (if 1 < length parts then parts ! 1 else []), listen_port = None\<rparr>"
    using assms by (auto simp add: parse_iface_def)
  then show ?thesis using False by simp
qed

lemma vpn_status_key:
  assumes "\<forall>c \<in> set k1. c \<noteq> 0x09 \<and> \<not> line_boundary c" "\<exists>c \<in> set k1. \<not> isspace c"
    and "\<forall>c \<in> set k2. c \<noteq> 0x09 \<and> \<not> line_boundary c" "\<exists>c \<in> set k2. \<not> isspace c"
  shows "vpn_status py (h\<lparr>wg_out := Some (k1 @ rest)\<rparr>) iface now
       = vpn_status py (h\<lparr>wg_out := Some (k2 @ rest)\<rparr>) iface now"
proof -
  obtain r where R: "\<And>k. \<exists>c \<in> set k. \<not> isspace c \<Longrightarrow>
      \<exists>k'. strip (k @ rest) = k' @ r \<and> set k' \<subseteq> set k \<and> (\<exists>c \<in> set k'. \<not> isspace c)"
    using strip_key [of rest] by blast
  obtain k1' where 1: "strip (k1 @ rest) = k1' @ r" "set k1' \<subseteq> set k1" "\<exists>c \<in> set k1'. \<not> isspace c"
    using R [OF assms(2)] by blast
  obtain k2' where 2: "strip (k2 @ rest) = k2' @ r" "set k2' \<subseteq> set k2" "\<exists>c \<in> set k2'. \<not> isspace c"
    using R [OF assms(4)] by blast
  have s1: "\<forall>c \<in> set k1'. c \<noteq> 0x09 \<and> \<not> line_boundary c" using assms(1) 1(2) by blast
  have s2: "\<forall>c \<in> set k2'. c \<noteq> 0x09 \<and> \<not> line_boundary c" using assms(3) 2(2) by blast
  have n1: "k1' @ r \<noteq> []" using 1(3) by auto
  have n2: "k2' @ r \<noteq> []" using 2(3) by auto
  have r1: "try_cmd (wg_out (h\<lparr>wg_out := Some (k1 @ rest)\<rparr>)) = k1' @ r"
    by (simp add: try_cmd_def 1(1))
  have r2: "try_cmd (wg_out (h\<lparr>wg_out := Some (k2 @ rest)\<rparr>)) = k2' @ r"
    by (simp add: try_cmd_def 2(1))
  have "vpn_status py (h\<lparr>wg_out := Some (k1 @ rest)\<rparr>) iface now
      = parse_dump py iface (k1' @ r) now"
    by (simp only: vpn_status_def Let_def r1 n1 if_False)
  moreover have "vpn_status py (h\<lparr>wg_out := Some (k2 @ rest)\<rparr>) iface now
      = parse_dump py iface (k2' @ r) now"
    by (simp only: vpn_status_def Let_def r2 n2 if_False)
  moreover have "parse_dump py iface (k1' @ r) now = parse_dump py iface (k2' @ r) now"
    using s1 1(3) s2 2(3) by (rule parse_dump_key)
  ultimately show ?thesis by simp
qed

text \<open>
  C9 as stated fails when the private key is blank. With an empty private key the
  interface line of the command's output starts with the tab, which \<^verbatim>\<open>try_cmd\<close> strips,
  and every field moves one place: the port is reported as the public key. And in a dump
  whose interface line is the private key alone, a blank key makes the line blank, so that
  the next line is read as the interface line.
\<close>

theorem private_key_counterexample:
  "vpn_status ascii_python
      \<lparr>wg_out = Some (lit ''K'' @ [9] @ lit ''pub'' @ [9] @ lit ''51820''),
       has_systemctl = False, systemctl_out = None\<rparr> (lit ''wg0'') 0
    \<noteq> vpn_status ascii_python
      \<lparr>wg_out = Some ([] @ [9] @ lit ''pub'' @ [9] @ lit ''51820''),
       has_systemctl = False, systemctl_out = None\<rparr> (lit ''wg0'') 0
   \<and> parse_dump ascii_python (lit ''wg0'') (lit ''K'' @ [10] @ lit ''a'' @ [9] @ lit ''b'') 0
    \<noteq> parse_dump ascii_python (lit ''wg0'') ([] @ [10] @ lit ''a'' @ [9] @ lit ''b'') 0
   \<and> vpn_status ascii_python
      \<lparr>wg_out = Some (lit ''K'' @ [9] @ lit ''pub'' @ [9] @ lit ''51820''),
       has_systemctl = False, systemctl_out = None\<rparr> (lit ''wg0'') 0
    = Inr \<lparr>vpn_type = lit ''wireguard'', vpn_iface = Some (lit ''wg0''), running = True,
           interface_info = Some \<lparr>public_key = lit ''pub'', listen_port = Some 51820\<rparr>,
           peers = Some []\<rparr>
   \<and> vpn_status ascii_python
      \<lparr>wg_out = Some ([] @ [9] @ lit ''pub'' @ [9] @ lit ''51820''),
       has_systemctl = False, systemctl_out = None\<rparr> (lit ''wg0'') 0
    = Inr \<lparr>vpn_type = lit ''wireguard'', vpn_iface = Some (lit ''wg0''), running = True,
           interface_info = Some \<lparr>public_key = lit ''51820'', listen_port = None\<rparr>,
           peers = Some []\<rparr>
   \<and> parse_dump ascii_python (lit ''wg0'') (lit ''K'' @ [10] @ lit ''a'' @ [9] @ lit ''b'') 0
    = Inr \<lparr>vpn_type = lit ''wireguard'', vpn_iface = Some (lit ''wg0''), running = True,
           interface_info = Some \<lparr>public_key = [], listen_port = None\<rparr>,
           peers = Some []\<rparr>
   \<and> parse_dump ascii_python (lit ''wg0'') ([] @ [10] @ lit ''a'' @ [9] @ lit ''b'') 0
    = Inr \<lparr>vpn_type = lit ''wireguard'', vpn_iface = Some (lit ''wg0''), running = True,
           interface_info = Some \<lparr>public_key = lit ''b'', listen_port = None\<rparr>,
           peers = Some []\<rparr>"
proof -
  have 1: "vpn_status ascii_python
      \<lparr>wg_out = Some (lit ''K'' @ [9] @ lit ''pub'' @ [9] @ lit ''51820''),
       has_systemctl = False, systemctl_out = None\<rparr> (lit ''wg0'') 0
    = Inr \<lparr>vpn_type = lit ''wireguard'', vpn_iface = Some (lit ''wg0''), running = True,
           interface_info = Some \<lparr>public_key = lit ''pub'', listen_port = Some 51820\<rparr>,
           peers = Some []\<rparr>"
    by (simp add: vpn_status_def try_cmd_def parse_dump_def parse_iface_def dump_eval)
  have 2: "vpn_status ascii_python
      \<lparr>wg_out = Some ([] @ [9] @ lit ''pub'' @ [9] @ lit ''51820''),
       has_systemctl = False, systemctl_out = None\<rparr> (lit ''wg0'') 0
    = Inr \<lparr>vpn_type = lit ''wireguard'', vpn_iface = Some (lit ''wg0''), running = True,
           interface_info = Some \<lparr>public_key = lit ''51820'', listen_port = None\<rparr>,
           peers = Some []\<rparr>"
    by (simp add: vpn_status_def try_cmd_def parse_dump_def parse_iface_def dump_eval)
  have 3: "parse_dump ascii_python (lit ''wg0'') (lit ''K'' @ [10] @ lit ''a'' @ [9] @ lit ''b'') 0
    = Inr \<lparr>vpn_type = lit ''wireguard'', vpn_iface = Some (lit ''wg0''), running = True,
           interface_info = Some \<lparr>public_key = [], listen_port = None\<rparr>,
           peers = Some []\<rparr>"
    by (simp add: parse_dump_def parse_iface_def parse_peer_def dump_eval)
  have 4: "parse_dump ascii_python (lit ''wg0'') ([] @ [10] @ lit ''a'' @ [9] @ lit ''b'') 0
    = Inr \<lparr>vpn_type = lit ''wireguard'', vpn_iface = Some (lit ''wg0''), running = True,
           interface_info = Some \<lparr>public_key = lit ''b'', listen_port = None\<rparr>,
           peers = Some []\<rparr>"
    by (simp add: parse_dump_def parse_iface_def parse_peer_def dump_eval)
  have 5: "vpn_status ascii_python
      \<lparr>wg_out = Some (lit ''K'' @ [9] @ lit ''pub'' @ [9] @ lit ''51820''),
       has_systemctl = False, systemctl_out = None\<rparr> (lit ''wg0'') 0
    \<noteq> vpn_status ascii_python
      \<lparr>wg_out = Some ([] @ [9] @ lit ''pub'' @ [9] @ lit ''51820''),
       has_systemctl = False, systemctl_out = None\<rparr> (lit ''wg0'') 0"
    unfolding 1 2 by simp
  have 6: "parse_dump ascii_python (lit ''wg0'') (lit ''K'' @ [10] @ lit ''a'' @ [9] @ lit ''b'') 0
    \<noteq> parse_dump ascii_python (lit ''wg0'') ([] @ [10] @ lit ''a'' @ [9] @ lit ''b'') 0"
    unfolding 3 4 by simp
  show ?thesis by (intro conjI; fact)
qed

text \<open>
  C9, amended. For two private keys that are field values (no tab, no line boundary) and
  are not blank, and any rest of the dump, the result is the same for both, of the parser
  and of \<^verbatim>\<open>vpn_status\<close> on the command's output. The interface record of the result has
  the public key (field 1 of the first line, empty when missing) and the listen port
  (field 2 as an integer when it is all digits, else absent), and nothing else.
\<close>

theorem private_key_not_exposed:
  assumes "\<forall>c \<in> set k1. c \<noteq> 0x09 \<and> \<not> line_boundary c" "\<exists>c \<in> set k1. \<not> isspace c"
    and "\<forall>c \<in> set k2. c \<noteq> 0x09 \<and> \<not> line_boundary c" "\<exists>c \<in> set k2. \<not> isspace c"
  shows "parse_dump py iface (k1 @ rest) now = parse_dump py iface (k2 @ rest) now
     \<and> vpn_status py (h\<lparr>wg_out := Some (k1 @ rest)\<rparr>) iface now
       = vpn_status py (h\<lparr>wg_out := Some (k2 @ rest)\<rparr>) iface now
     \<and> (\<forall>v. parse_dump py iface (k1 @ rest) now = Inr v \<longrightarrow>
          (let parts = split_on 0x09 (hd (dump_lines (k1 @ rest))) in
           interface_info v
             = Some \<lparr>public_key = (if 1 < length parts then parts ! 1 else []),
                     listen_port = (if 2 < length parts \<and> isdigit py (parts ! 2)
                                    then Some (projr (py_int py (parts ! 2))) else None)\<rparr>))"
proof -
  have a: "parse_dump py iface (k1 @ rest) now = parse_dump py iface (k2 @ rest) now"
    using assms by (rule parse_dump_key)
  have b: "vpn_status py (h\<lparr>wg_out := Some (k1 @ rest)\<rparr>) iface now
       = vpn_status py (h\<lparr>wg_out := Some (k2 @ rest)\<rparr>) iface now"
    using assms by (rule vpn_status_key)
  have c: "interface_info v
       = Some \<lparr>public_key = (if 1 < length parts then parts ! 1 else []),
               listen_port = (if 2 < length parts \<and> isdigit py (parts ! 2)
                              then Some (projr (py_int py (parts ! 2))) else None)\<rparr>"
    if v: "parse_dump py iface (k1 @ rest) now = Inr v"
      and parts: "parts = split_on 0x09 (hd (dump_lines (k1 @ rest)))" for v parts
  proof -
    obtain l0 ms where "dump_lines (k1 @ rest) = (k1 @ l0) # ms"
      using dump_lines_key [of rest] assms(1,2) by blast
    then have d: "dump_lines (k1 @ rest) = hd (dump_lines (k1 @ rest)) # ms" by simp
    have "bnd (parse_iface py parts) (\<lambda>info.
            Inr \<lparr>vpn_type = lit ''wireguard'', vpn_iface = Some iface, running = True,
                 interface_info = Some info, peers = Some (parse_peers py now ms)\<rparr>) = Inr v"
      using v unfolding parse_dump_def parts by (subst (asm) d) simp
    then obtain i where i: "parse_iface py parts = Inr i" and "interface_info v = Some i"
      unfolding bnd_Inr_iff by auto
    then show ?thesis using parse_iface_Inr [OF i] by simp
  qed
  show ?thesis unfolding Let_def using a b c by blast
qed

text \<open>Two dumps that differ in the private key only.\<close>

theorem private_key_not_exposed_witness:
  "vpn_status ascii_python
      \<lparr>wg_out = Some (lit ''K1'' @ [9] @ lit ''pub'' @ [9] @ lit ''51820''),
       has_systemctl = False, systemctl_out = None\<rparr> (lit ''wg0'') 0
   = vpn_status ascii_python
      \<lparr>wg_out = Some (lit ''K2'' @ [9] @ lit ''pub'' @ [9] @ lit ''51820''),
       has_systemctl = False, systemctl_out = None\<rparr> (lit ''wg0'') 0"
proof -
  have 1: "\<forall>c \<in> set (lit ''K1''). c \<noteq> 0x09 \<and> \<not> line_boundary c"
    by (simp add: line_boundary_def)
  have 2: "\<exists>c \<in> set (lit ''K1''). \<not> isspace c" by (simp add: isspace_def)
  have 3: "\<forall>c \<in> set (lit ''K2''). c \<noteq> 0x09 \<and> \<not> line_boundary c"
    by (simp add: line_boundary_def)
  have 4: "\<exists>c \<in> set (lit ''K2''). \<not> isspace c" by (simp add: isspace_def)
  show ?thesis
    using private_key_not_exposed [OF 1 2 3 4, of ascii_python "lit ''wg0''"
        "[9] @ lit ''pub'' @ [9] @ lit ''51820''" 0
        "\<lparr>wg_out = None, has_systemctl = False, systemctl_out = None\<rparr>",
        THEN conjunct2, THEN conjunct1]
    by simp
qed

end
